theory Spec2Isabelle
  imports Main "HOL-Library.AList" "HOL-Library.Char_ord" "HOL-Library.List_Lexorder"
begin

section \<open>The status document\<close>

text \<open>
  \<^verbatim>\<open>juju status --format=json\<close> yields a JSON document that \<^verbatim>\<open>wait\<close> reads with
  \<^verbatim>\<open>.get\<close>, \<^verbatim>\<open>in\<close> and indexing. The document is modelled at the shape the code
  expects: every key that the code reads with \<^verbatim>\<open>.get\<close> or tests with \<^verbatim>\<open>in\<close> is an
  optional field (\<open>None\<close> when the key is missing), the two keys that are indexed
  directly (\<^verbatim>\<open>astatus['current']\<close>, \<^verbatim>\<open>astatus['since']\<close>) are plain fields. A JSON
  object that the code iterates with \<^verbatim>\<open>.items()\<close> is an association list in the
  order of the document.
\<close>

record agent_status =
  current :: string
  since :: string

record unit_info =
  u_life :: "string option"
  u_agent_state :: "string option"
  u_agent_state_info :: "string option"
  u_agent_version :: "string option"
  u_agent_status :: "agent_status option"

record juju_unit =
  u_info :: unit_info
  u_subordinates :: "(string \<times> unit_info) list option"

record service =
  s_life :: "string option"
  s_units :: "(string \<times> juju_unit) list option"

record status =
  st_services :: "(string \<times> service) list option"

text \<open>A parsed JSON value, as \<^verbatim>\<open>json.loads\<close> returns it for the output of \<^verbatim>\<open>is-leader\<close>.\<close>

datatype json = JNull | JBool bool | JNumber int | JString string
  | JArray "json list" | JObject "(string \<times> json) list"

section \<open>The outside world\<close>

type_synonym cmd = "string list"

text \<open>
  What \<^verbatim>\<open>subprocess.Popen(cmd, ...)\<close> followed by \<^verbatim>\<open>communicate()\<close> does: it raises
  \<^verbatim>\<open>OSError\<close> (with an errno that may be missing), raises some other exception, or the
  process exits with a return code, its standard output and its standard error.
\<close>

datatype proc = OSError "int option" | OtherException | Exited int string string

datatype error = JujuWaitException int | ValueError | TypeError

text \<open>
  One poll cycle sees one \<open>world\<close>: the outcome of every command it may run, the
  library functions \<^verbatim>\<open>json.loads\<close> (at the type of a status document and at the type
  of a plain value) and \<^verbatim>\<open>datetime.strptime\<close> (\<open>None\<close> where they raise
  \<^verbatim>\<open>ValueError\<close>), and the clock \<^verbatim>\<open>datetime.utcnow()\<close> in microseconds. The
  environment passed to the child process is not modelled.
\<close>

record world =
  popen :: "cmd \<Rightarrow> proc"
  json_loads_status :: "string \<Rightarrow> status option"
  json_loads :: "string \<Rightarrow> json option"
  strptime :: "string \<Rightarrow> string \<Rightarrow> int option"
  utcnow :: int

section \<open>Helper functions\<close>

text \<open>
  Every helper that runs a command takes the list of the commands run so far and
  returns it extended, with its result or with the exception it raises.
\<close>

definition parse_ts :: "world \<Rightarrow> string \<Rightarrow> error + int" where
  "parse_ts w ts =
     (case strptime w ts ''%d %b %Y %H:%M:%SZ'' of
        None \<Rightarrow> Inl ValueError
      | Some d \<Rightarrow> Inr d)"

definition run_or_die :: "world \<Rightarrow> cmd \<Rightarrow> cmd list \<Rightarrow> (error \<times> cmd list) + (string \<times> cmd list)" where
  "run_or_die w c tr =
     (case popen w c of
        OSError errno \<Rightarrow>
          Inl (JujuWaitException (case errno of None \<Rightarrow> 41 | Some n \<Rightarrow> if n = 0 then 41 else n),
               tr @ [c])
      | OtherException \<Rightarrow> Inl (JujuWaitException 42, tr @ [c])
      | Exited returncode out err \<Rightarrow>
          if returncode \<noteq> 0
          then Inl (JujuWaitException (if returncode = 0 then 43 else returncode), tr @ [c])
          else Inr (out, tr @ [c]))"

fun str_nat :: "nat \<Rightarrow> string" where
  "str_nat n =
     (if n < 10 then [''0123456789'' ! n]
      else str_nat (n div 10) @ [''0123456789'' ! (n mod 10)])"

declare str_nat.simps [simp del]

definition juju_run_cmd :: "string \<Rightarrow> string \<Rightarrow> nat option \<Rightarrow> cmd" where
  "juju_run_cmd unit c timeout =
     (let timeout = (case timeout of None \<Rightarrow> 6 * 60 * 60 | Some t \<Rightarrow> t)
      in [''juju'', ''run'', ''--timeout='' @ str_nat timeout @ ''s'', ''--unit'', unit, c])"

definition juju_run ::
  "world \<Rightarrow> string \<Rightarrow> string \<Rightarrow> nat option \<Rightarrow> cmd list \<Rightarrow> (error \<times> cmd list) + (string \<times> cmd list)" where
  "juju_run w unit c timeout tr = run_or_die w (juju_run_cmd unit c timeout) tr"

definition status_cmd :: cmd where
  "status_cmd = [''juju'', ''status'', ''--format=json'']"

text \<open>
  In \<^verbatim>\<open>get_status\<close> the test \<^verbatim>\<open>json_status is None\<close> never holds, since \<^verbatim>\<open>run_or_die\<close>
  returns the output or raises.
\<close>

definition get_status :: "world \<Rightarrow> cmd list \<Rightarrow> (error \<times> cmd list) + (status \<times> cmd list)" where
  "get_status w tr =
     (case run_or_die w status_cmd tr of
        Inl x \<Rightarrow> Inl x
      | Inr (json_status, tr') \<Rightarrow>
          (case json_loads_status w json_status of
             None \<Rightarrow> Inl (ValueError, tr')
           | Some s \<Rightarrow> Inr (s, tr')))"

definition get_log_tail ::
  "world \<Rightarrow> string \<Rightarrow> nat option \<Rightarrow> cmd list \<Rightarrow> (error \<times> cmd list) + (string \<times> cmd list)" where
  "get_log_tail w unit timeout tr =
     (let log = ''unit-'' @ map (\<lambda>c. if c = CHR ''/'' then CHR ''-'' else c) unit @ ''.log'';
          c = ''sudo tail -1 /var/log/juju/'' @ log
      in juju_run w unit c timeout tr)"

definition get_is_leader ::
  "world \<Rightarrow> string \<Rightarrow> nat option \<Rightarrow> cmd list \<Rightarrow> (error \<times> cmd list) + (json \<times> cmd list)" where
  "get_is_leader w unit timeout tr =
     (case juju_run w unit ''is-leader --format=json'' timeout tr of
        Inl x \<Rightarrow> Inl x
      | Inr (raw, tr') \<Rightarrow>
          (case json_loads w raw of
             None \<Rightarrow> Inl (ValueError, tr')
           | Some j \<Rightarrow> Inr (j, tr')))"

text \<open>
  The command lines that \<^verbatim>\<open>get_log_tail(unit)\<close> and \<^verbatim>\<open>get_is_leader(unit)\<close> run when
  they are called without a timeout, as \<^verbatim>\<open>wait\<close> calls them.
\<close>

definition log_tail_cmd :: "string \<Rightarrow> cmd" where
  "log_tail_cmd unit =
     juju_run_cmd unit
       (''sudo tail -1 /var/log/juju/''
          @ ''unit-'' @ map (\<lambda>c. if c = CHR ''/'' then CHR ''-'' else c) unit @ ''.log'') None"

definition is_leader_cmd :: "string \<Rightarrow> cmd" where
  "is_leader_cmd unit = juju_run_cmd unit ''is-leader --format=json'' None"

definition IDLE_CONFIRMATION :: int where
  "IDLE_CONFIRMATION = 15 * 1000000"

definition reset_cmd :: cmd where
  "reset_cmd = [''juju'', ''set-environment'', ''logging-config=juju=WARNING;unit=INFO'']"

definition reset_logging :: "world \<Rightarrow> cmd list \<Rightarrow> (error \<times> cmd list) + (unit \<times> cmd list)" where
  "reset_logging w tr =
     (case run_or_die w reset_cmd tr of
        Inl x \<Rightarrow> Inl x
      | Inr (out, tr') \<Rightarrow> Inr ((), tr'))"

section \<open>Version comparison\<close>

text \<open>
  \<^verbatim>\<open>LooseVersion\<close> is the class of the standard library's \<^verbatim>\<open>distutils.version\<close>. It
  splits a version string at the matches of \<^verbatim>\<open>(\d+ | [a-z]+ | \.)\<close>, drops the empty
  pieces and the dots, and turns the runs of digits into integers. Two versions are
  compared as Python compares lists: at the first position where they differ, and an
  integer against a string raises \<^verbatim>\<open>TypeError\<close>.
\<close>

datatype component = CInt nat | CStr string

datatype char_class = Digit | Lower | Dot | Other

definition char_class_of :: "char \<Rightarrow> char_class" where
  "char_class_of c =
     (if c \<in> set ''0123456789'' then Digit
      else if c \<in> set ''abcdefghijklmnopqrstuvwxyz'' then Lower
      else if c = CHR ''.'' then Dot
      else Other)"

fun runs :: "string \<Rightarrow> (char_class \<times> string) list" where
  "runs [] = []"
| "runs (c # cs) =
     (case runs cs of
        [] \<Rightarrow> [(char_class_of c, [c])]
      | (k, r) # rest \<Rightarrow>
          if k = char_class_of c \<and> k \<noteq> Dot then (k, c # r) # rest
          else (char_class_of c, [c]) # (k, r) # rest)"

text \<open>The value of a digit is its place in \<^verbatim>\<open>0123456789\<close>.\<close>

definition digit_val :: "char \<Rightarrow> nat" where
  "digit_val c = length (takeWhile (\<lambda>d. d \<noteq> c) ''0123456789'')"

definition int_of_digits :: "string \<Rightarrow> nat" where
  "int_of_digits ds = foldl (\<lambda>a c. 10 * a + digit_val c) 0 ds"

definition LooseVersion :: "string \<Rightarrow> component list" where
  "LooseVersion vstring =
     map (\<lambda>(k, r). if k = Digit then CInt (int_of_digits r) else CStr r)
       (filter (\<lambda>(k, r). k \<noteq> Dot) (runs vstring))"

fun component_lt :: "component \<Rightarrow> component \<Rightarrow> error + bool" where
  "component_lt (CInt a) (CInt b) = Inr (a < b)"
| "component_lt (CStr a) (CStr b) = Inr (a < b)"
| "component_lt (CInt a) (CStr b) = Inl TypeError"
| "component_lt (CStr a) (CInt b) = Inl TypeError"

fun list_lt :: "component list \<Rightarrow> component list \<Rightarrow> error + bool" where
  "list_lt [] [] = Inr False"
| "list_lt [] (y # ys) = Inr True"
| "list_lt (x # xs) [] = Inr False"
| "list_lt (x # xs) (y # ys) = (if x = y then list_lt xs ys else component_lt x y)"

definition version_ge :: "component list \<Rightarrow> component list \<Rightarrow> error + bool" where
  "version_ge a b =
     (if a = b then Inr True
      else case list_lt a b of Inl e \<Rightarrow> Inl e | Inr lt \<Rightarrow> Inr (\<not> lt))"

section \<open>The poll loop\<close>

text \<open>
  The variables of \<^verbatim>\<open>wait\<close> that live across statements, and \<open>trace\<close>, the commands
  run since the start of \<^verbatim>\<open>wait\<close>. Dictionaries keep the order in which their keys
  were first stored, as Python's do; storing under a key that is present replaces its
  value in place.
\<close>

record vars =
  prev_logs :: "(string \<times> string) list"
  ready_since :: "int option"
  logging_reset :: bool
  ready :: bool
  logs :: "(string \<times> string) list"
  trace :: "cmd list"

record collected =
  all_units :: "string set"
  ready_units :: "(string \<times> unit_info) list"
  agent_status :: "(string \<times> agent_status) list"
  agent_version :: "(string \<times> string option) list"

definition status_services :: "status \<Rightarrow> (string \<times> service) list" where
  "status_services st = (case st_services st of None \<Rightarrow> [] | Some xs \<Rightarrow> xs)"

definition service_units :: "service \<Rightarrow> (string \<times> juju_unit) list" where
  "service_units s = (case s_units s of None \<Rightarrow> [] | Some xs \<Rightarrow> xs)"

definition unit_subordinates :: "juju_unit \<Rightarrow> (string \<times> unit_info) list" where
  "unit_subordinates u = (case u_subordinates u of None \<Rightarrow> [] | Some xs \<Rightarrow> xs)"

definition dying :: "string option \<Rightarrow> bool" where
  "dying l = (l = Some ''dying'' \<or> l = Some ''dead'')"

text \<open>Lines 173 to 176: a dying service makes the cycle not ready.\<close>

definition check_services :: "status \<Rightarrow> bool \<Rightarrow> bool" where
  "check_services st r =
     fold (\<lambda>(sname, service) r. if dying (s_life service) then False else r)
       (sort_key fst (status_services st)) r"

text \<open>Lines 193 to 197, and again 199 to 203: one unit or subordinate is filed.\<close>

definition file_unit :: "string \<Rightarrow> unit_info \<Rightarrow> collected \<Rightarrow> collected" where
  "file_unit uname u c =
     (let c = c\<lparr>agent_version := AList.update uname (u_agent_version u) (agent_version c)\<rparr>
      in case u_agent_status u of
           Some a \<Rightarrow> c\<lparr>agent_status := AList.update uname a (agent_status c)\<rparr>
         | None \<Rightarrow> c\<lparr>ready_units := AList.update uname u (ready_units c)\<rparr>)"

text \<open>Lines 191 to 203: the body of the loop over the units of a service.\<close>

definition collect_unit :: "string \<times> juju_unit \<Rightarrow> collected \<Rightarrow> collected" where
  "collect_unit = (\<lambda>(uname, unit) c.
     fold (\<lambda>(subname, sub). file_unit subname sub) (unit_subordinates unit)
       (file_unit uname (u_info unit) (c\<lparr>all_units := insert uname (all_units c)\<rparr>)))"

text \<open>Lines 178 to 203.\<close>

definition collect_units :: "status \<Rightarrow> collected" where
  "collect_units st =
     fold (\<lambda>(sname, service). fold collect_unit (service_units service)) (status_services st)
       \<lparr>all_units = {}, ready_units = [], agent_status = [], agent_version = []\<rparr>"

text \<open>Lines 205 to 210, over the sorted items of \<^verbatim>\<open>agent_status\<close>.\<close>

fun check_agent_status :: "world \<Rightarrow> (string \<times> agent_status) list \<Rightarrow> bool \<Rightarrow> error + bool" where
  "check_agent_status w [] r = Inr r"
| "check_agent_status w ((uname, astatus) # rest) r =
     (case parse_ts w (since astatus) of
        Inl e \<Rightarrow> Inl e
      | Inr s \<Rightarrow> check_agent_status w rest (if current astatus \<noteq> ''idle'' then False else r))"

text \<open>Lines 231 to 241: the log of one unit is sniffed.\<close>

definition sniff :: "world \<Rightarrow> string \<Rightarrow> vars \<Rightarrow> (error \<times> cmd list) + vars" where
  "sniff w uname v =
     (case (if \<not> logging_reset v
            then (case reset_logging w (trace v) of
                    Inl x \<Rightarrow> Inl x
                  | Inr (u, tr) \<Rightarrow> Inr (v\<lparr>logging_reset := True, trace := tr\<rparr>))
            else Inr v) of
        Inl x \<Rightarrow> Inl x
      | Inr v \<Rightarrow>
          (case get_log_tail w uname None (trace v) of
             Inl x \<Rightarrow> Inl x
           | Inr (line, tr) \<Rightarrow>
               (let v = v\<lparr>logs := AList.update uname line (logs v), trace := tr\<rparr>
                in if Some line = map_of (prev_logs v) uname then Inr v
                   else Inr (v\<lparr>ready := False\<rparr>))))"

text \<open>Lines 217 to 241: the body of the loop over the units without agent status.\<close>

definition legacy_unit :: "world \<Rightarrow> string \<Rightarrow> unit_info \<Rightarrow> vars \<Rightarrow> (error \<times> cmd list) + vars" where
  "legacy_unit w uname unit v =
     (let agent_state = u_agent_state unit
      in if dying (u_life unit) then Inr (v\<lparr>ready := False\<rparr>)
         else if agent_state = Some ''error'' then Inl (JujuWaitException 1, trace v)
         else if agent_state \<noteq> Some ''started'' then Inr (v\<lparr>ready := False\<rparr>)
         else if ready v then sniff w uname v
         else Inr v)"

fun legacy_loop :: "world \<Rightarrow> (string \<times> unit_info) list \<Rightarrow> vars \<Rightarrow> (error \<times> cmd list) + vars" where
  "legacy_loop w [] v = Inr v"
| "legacy_loop w ((uname, unit) # rest) v =
     (case legacy_unit w uname unit v of
        Inl x \<Rightarrow> Inl x
      | Inr v' \<Rightarrow> legacy_loop w rest v')"

text \<open>
  Lines 251 to 253, once the service is known to have no leader yet: the version
  is present and not empty, and either it is at least 1.23 or the unit answers
  \<^verbatim>\<open>true\<close> to \<^verbatim>\<open>is-leader\<close>.
\<close>

definition leads :: "world \<Rightarrow> string \<Rightarrow> string option \<Rightarrow> cmd list \<Rightarrow> (error \<times> cmd list) + (bool \<times> cmd list)" where
  "leads w uname version tr =
     (case version of
        None \<Rightarrow> Inr (False, tr)
      | Some v \<Rightarrow>
          if v = [] then Inr (False, tr)
          else (case version_ge (LooseVersion v) (LooseVersion ''1.23'') of
                  Inl e \<Rightarrow> Inl (e, tr)
                | Inr True \<Rightarrow> Inr (True, tr)
                | Inr False \<Rightarrow>
                    (case get_is_leader w uname None tr of
                       Inl x \<Rightarrow> Inl x
                     | Inr (j, tr') \<Rightarrow> Inr (j = JBool True, tr'))))"

definition service_of :: "string \<Rightarrow> string" where
  "service_of uname = takeWhile (\<lambda>c. c \<noteq> CHR ''/'') uname"

text \<open>Lines 248 to 255, over the items of \<^verbatim>\<open>agent_version\<close>.\<close>

fun leader_loop ::
  "world \<Rightarrow> (string \<times> string option) list \<Rightarrow> string set \<Rightarrow> string set \<Rightarrow> cmd list
     \<Rightarrow> (error \<times> cmd list) + (string set \<times> string set \<times> cmd list)" where
  "leader_loop w [] services services_with_leader tr = Inr (services, services_with_leader, tr)"
| "leader_loop w ((uname, version) # rest) services services_with_leader tr =
     (let sname = service_of uname;
          services = insert sname services
      in if sname \<in> services_with_leader
         then leader_loop w rest services services_with_leader tr
         else (case leads w uname version tr of
                 Inl x \<Rightarrow> Inl x
               | Inr (True, tr') \<Rightarrow> leader_loop w rest services (insert sname services_with_leader) tr'
               | Inr (False, tr') \<Rightarrow> leader_loop w rest services services_with_leader tr'))"

text \<open>Lines 245 to 259.\<close>

definition check_leaders :: "world \<Rightarrow> collected \<Rightarrow> vars \<Rightarrow> (error \<times> cmd list) + vars" where
  "check_leaders w c v =
     (if ready v
      then (case leader_loop w (agent_version c) {} {} (trace v) of
              Inl x \<Rightarrow> Inl x
            | Inr (services, services_with_leader, tr) \<Rightarrow>
                Inr (v\<lparr>ready := (if services \<subseteq> services_with_leader then ready v else False),
                       trace := tr\<rparr>))
      else Inr v)"

text \<open>Lines 169 to 259: the readiness verdict of one cycle, with the units it saw.\<close>

definition evaluate :: "world \<Rightarrow> vars \<Rightarrow> (error \<times> cmd list) + (vars \<times> collected)" where
  "evaluate w v =
     (case get_status w (trace v) of
        Inl x \<Rightarrow> Inl x
      | Inr (st, tr) \<Rightarrow>
          (let v = v\<lparr>ready := check_services st True, trace := tr\<rparr>;
               c = collect_units st
           in case check_agent_status w (sort_key fst (agent_status c)) (ready v) of
                Inl e \<Rightarrow> Inl (e, trace v)
              | Inr r \<Rightarrow>
                  (case legacy_loop w (sort_key fst (ready_units c)) (v\<lparr>ready := r, logs := []\<rparr>) of
                     Inl x \<Rightarrow> Inl x
                   | Inr v \<Rightarrow>
                       (case check_leaders w c v of
                          Inl x \<Rightarrow> Inl x
                        | Inr v \<Rightarrow> Inr (v, c)))))"

text \<open>
  A run of the loop over the cycles it is given: it is still polling after the last
  of them, it has returned (with the units of the success message), or it has raised.
\<close>

datatype run = Polling vars | Returned vars "string set" | Raised error "cmd list"

text \<open>
  Lines 169 to 278: one turn of the loop. On return the code logs \<^verbatim>\<open>ready_since\<close> and
  the sorted \<^verbatim>\<open>all_units\<close>; the run keeps both. The \<^verbatim>\<open>time.sleep(4)\<close> at the end of a
  turn shows only in the clocks of consecutive worlds.
\<close>

definition cycle :: "world \<Rightarrow> vars \<Rightarrow> run" where
  "cycle w v =
     (case evaluate w v of
        Inl (e, tr) \<Rightarrow> Raised e tr
      | Inr (v, c) \<Rightarrow>
          if ready v
          then (case ready_since v of
                  None \<Rightarrow> Polling (v\<lparr>ready_since := Some (utcnow w), prev_logs := logs v\<rparr>)
                | Some t \<Rightarrow>
                    if t + IDLE_CONFIRMATION < utcnow w then Returned v (all_units c)
                    else Polling (v\<lparr>prev_logs := logs v\<rparr>))
          else Polling (v\<lparr>ready_since := None, prev_logs := logs v\<rparr>))"

fun wait_loop :: "world list \<Rightarrow> vars \<Rightarrow> run" where
  "wait_loop [] v = Polling v"
| "wait_loop (w # ws) v =
     (case cycle w v of
        Polling v' \<Rightarrow> wait_loop ws v'
      | Returned v' units \<Rightarrow> Returned v' units
      | Raised e tr \<Rightarrow> Raised e tr)"

text \<open>
  Before the loop \<^verbatim>\<open>ready\<close> and \<^verbatim>\<open>logs\<close> are not bound yet; every turn of the loop
  assigns them before it reads them.
\<close>

definition init :: vars where
  "init =
     \<lparr>prev_logs = [], ready_since = None, logging_reset = False, ready = True, logs = [],
      trace = []\<rparr>"

definition wait :: "world list \<Rightarrow> run" where
  "wait ws = wait_loop ws init"

section \<open>Observations on runs\<close>

fun trace_of :: "run \<Rightarrow> cmd list" where
  "trace_of (Polling v) = trace v"
| "trace_of (Returned v units) = trace v"
| "trace_of (Raised e tr) = tr"

text \<open>The commands that one turn of the loop runs, in order.\<close>

definition cycle_cmds :: "world \<Rightarrow> vars \<Rightarrow> cmd list" where
  "cycle_cmds w v = drop (length (trace v)) (trace_of (cycle w v))"

text \<open>The line that \<^verbatim>\<open>get_log_tail\<close> returns for a unit, where it does not raise.\<close>

definition fetched :: "world \<Rightarrow> string \<Rightarrow> string option" where
  "fetched w unit =
     (case popen w (log_tail_cmd unit) of
        Exited returncode out err \<Rightarrow> if returncode = 0 then Some out else None
      | _ \<Rightarrow> None)"

text \<open>A command runs and exits with code 0.\<close>

definition succeeds :: "world \<Rightarrow> cmd \<Rightarrow> bool" where
  "succeeds w c = (case popen w c of Exited returncode out err \<Rightarrow> returncode = 0 | _ \<Rightarrow> False)"

text \<open>The document that \<^verbatim>\<open>get_status\<close> returns in a world, where it does not raise.\<close>

definition polled :: "world \<Rightarrow> status option" where
  "polled w = (case get_status w [] of Inl x \<Rightarrow> None | Inr (st, tr) \<Rightarrow> Some st)"

text \<open>The verdict of the cycle that starts in \<open>v\<close>, where the evaluation does not raise.\<close>

definition verdict :: "world \<Rightarrow> vars \<Rightarrow> bool option" where
  "verdict w v = (case evaluate w v of Inl x \<Rightarrow> None | Inr (v', c) \<Rightarrow> Some (ready v'))"

text \<open>
  In the run of \<^verbatim>\<open>wait\<close> over the cycles \<open>ws\<close>: cycle \<open>i\<close> is reached and its verdict
  is ready; cycle \<open>i\<close> is reached and \<^verbatim>\<open>wait\<close> returns in it; the cycles from \<open>j\<close> up to
  \<open>k\<close> (excluded) are a ready streak that starts at \<open>j\<close>.
\<close>

definition ready_at :: "world list \<Rightarrow> nat \<Rightarrow> bool" where
  "ready_at ws i =
     (case wait (take i ws) of
        Polling v \<Rightarrow> verdict (ws ! i) v = Some True
      | _ \<Rightarrow> False)"

definition returns_at :: "world list \<Rightarrow> nat \<Rightarrow> bool" where
  "returns_at ws i =
     (case wait (take i ws) of
        Polling v \<Rightarrow> (case cycle (ws ! i) v of Returned v' units \<Rightarrow> True | _ \<Rightarrow> False)
      | _ \<Rightarrow> False)"

definition streak :: "world list \<Rightarrow> nat \<Rightarrow> nat \<Rightarrow> bool" where
  "streak ws j k = ((\<forall>i \<in> {j..<k}. ready_at ws i) \<and> (j = 0 \<or> \<not> ready_at ws (j - 1)))"

text \<open>
  What the leadership check reads from a unit: its version is present and at least
  1.23; its version is present and below 1.23; the unit answers \<^verbatim>\<open>true\<close> to
  \<^verbatim>\<open>is-leader\<close>.
\<close>

definition new_enough :: "string option \<Rightarrow> bool" where
  "new_enough version =
     (case version of
        None \<Rightarrow> False
      | Some v \<Rightarrow> v \<noteq> [] \<and> version_ge (LooseVersion v) (LooseVersion ''1.23'') = Inr True)"

definition older :: "string option \<Rightarrow> bool" where
  "older version =
     (case version of
        None \<Rightarrow> False
      | Some v \<Rightarrow> v \<noteq> [] \<and> version_ge (LooseVersion v) (LooseVersion ''1.23'') = Inr False)"

definition answers_true :: "world \<Rightarrow> string \<Rightarrow> bool" where
  "answers_true w unit =
     (case get_is_leader w unit None [] of Inl x \<Rightarrow> False | Inr (j, tr) \<Rightarrow> j = JBool True)"

text \<open>
  The commands that the loop of lines 248 to 255 runs over the versions \<open>av\<close>, and the
  services it has marked as led when it ends without raising.
\<close>

definition leader_cmds :: "world \<Rightarrow> (string \<times> string option) list \<Rightarrow> cmd list \<Rightarrow> cmd list" where
  "leader_cmds w av tr =
     drop (length tr)
       (case leader_loop w av {} {} tr of Inl (e, tr') \<Rightarrow> tr' | Inr (s, l, tr') \<Rightarrow> tr')"

definition leaders :: "world \<Rightarrow> (string \<times> string option) list \<Rightarrow> cmd list \<Rightarrow> string set option" where
  "leaders w av tr =
     (case leader_loop w av {} {} tr of Inl x \<Rightarrow> None | Inr (s, l, tr') \<Rightarrow> Some l)"

text \<open>
  Over the versions \<open>xs\<close> and the commands \<open>X\<close> that the loop has run: every
  \<^verbatim>\<open>is-leader\<close> among them went to a unit of an older version; and the services marked
  at the end, \<open>L'\<close>, are those marked before, \<open>L\<close>, with a service for each unit that is
  new enough, and otherwise only services of which a unit was asked and answered true.
\<close>

definition asked_older :: "(string \<times> string option) list \<Rightarrow> cmd list \<Rightarrow> bool" where
  "asked_older xs X = (\<forall>u. is_leader_cmd u \<in> set X \<longrightarrow> (\<exists>ver. (u, ver) \<in> set xs \<and> older ver))"

definition marks ::
  "world \<Rightarrow> (string \<times> string option) list \<Rightarrow> cmd list \<Rightarrow> string set \<Rightarrow> string set \<Rightarrow> bool" where
  "marks w xs X L L' =
     (L \<subseteq> L'
      \<and> (\<forall>(u, ver) \<in> set xs. new_enough ver \<longrightarrow> service_of u \<in> L')
      \<and> (\<forall>s \<in> L'. s \<in> L
            \<or> (\<exists>(u, ver) \<in> set xs. service_of u = s
                  \<and> (new_enough ver \<or> is_leader_cmd u \<in> set X \<and> answers_true w u))))"

text \<open>
  Two shapes of a trace: no logging reset and no log tail has run yet; or the logging
  reset has run once, after no log tail, with a log tail right after it.
\<close>

definition unsniffed :: "cmd list \<Rightarrow> bool" where
  "unsniffed tr = (reset_cmd \<notin> set tr \<and> (\<forall>u. log_tail_cmd u \<notin> set tr))"

definition reset_once :: "cmd list \<Rightarrow> bool" where
  "reset_once tr =
     (\<exists>A B u. tr = A @ reset_cmd # log_tail_cmd u # B \<and> unsniffed A \<and> reset_cmd \<notin> set B)"

definition reset_inv :: "vars \<Rightarrow> bool" where
  "reset_inv v = (if logging_reset v then reset_once (trace v) else unsniffed (trace v))"

fun reset_ok :: "run \<Rightarrow> bool" where
  "reset_ok (Polling v) = reset_inv v"
| "reset_ok (Returned v units) = reset_inv v"
| "reset_ok (Raised e tr) =
     (unsniffed tr \<or> reset_once tr
      \<or> (\<exists>A n. tr = A @ [reset_cmd] \<and> unsniffed A \<and> e = JujuWaitException n))"

text \<open>
  What a step of the legacy loop leaves in \<^verbatim>\<open>logs\<close>, in terms of the commands it has
  added to the trace.
\<close>

definition logs_step :: "world \<Rightarrow> vars \<Rightarrow> vars \<Rightarrow> bool" where
  "logs_step w v v' =
     (\<exists>X. trace v' = trace v @ X \<and> set X \<subseteq> insert reset_cmd (range log_tail_cmd)
        \<and> (\<forall>u. map_of (logs v') u = (if log_tail_cmd u \<in> set X then fetched w u else map_of (logs v) u))
        \<and> prev_logs v' = prev_logs v \<and> ready_since v' = ready_since v)"

section \<open>Sample documents and worlds\<close>

definition modern_unit :: "string \<Rightarrow> string \<Rightarrow> unit_info" where
  "modern_unit cur ver =
     \<lparr>u_life = None, u_agent_state = None, u_agent_state_info = None,
      u_agent_version = Some ver,
      u_agent_status = Some \<lparr>current = cur, since = ''16 Sep 2015 10:14:05Z''\<rparr>\<rparr>"

definition legacy_info :: "string option \<Rightarrow> string \<Rightarrow> string \<Rightarrow> unit_info" where
  "legacy_info l state ver =
     \<lparr>u_life = l, u_agent_state = Some state, u_agent_state_info = Some ''hook failed'',
      u_agent_version = Some ver, u_agent_status = None\<rparr>"

definition principal :: "unit_info \<Rightarrow> juju_unit" where
  "principal u = \<lparr>u_info = u, u_subordinates = None\<rparr>"

definition one_service :: "string \<Rightarrow> (string \<times> juju_unit) list \<Rightarrow> status" where
  "one_service sname us = \<lparr>st_services = Some [(sname, \<lparr>s_life = None, s_units = Some us\<rparr>)]\<rparr>"

text \<open>
  A world in which the status command prints the document \<open>st\<close>, every other command
  behaves as \<open>p\<close> says, and the clock shows \<open>t\<close>.
\<close>

definition world_of :: "status \<Rightarrow> (cmd \<Rightarrow> proc) \<Rightarrow> int \<Rightarrow> world" where
  "world_of st p t =
     \<lparr>popen = (\<lambda>c. if c = status_cmd then Exited 0 ''{}'' [] else p c),
      json_loads_status = (\<lambda>raw. Some st),
      json_loads = (\<lambda>raw. if raw = ''true'' then Some (JBool True)
                           else if raw = ''false'' then Some (JBool False) else None),
      strptime = (\<lambda>ts fmt. Some 0),
      utcnow = t\<rparr>"

definition empty_status :: status where
  "empty_status = \<lparr>st_services = None\<rparr>"

definition no_cmd :: "cmd \<Rightarrow> proc" where
  "no_cmd c = OtherException"

definition ok_cmd :: "cmd \<Rightarrow> proc" where
  "ok_cmd c = Exited 0 ''true'' []"

text \<open>A principal unit with agent status and a subordinate under it.\<close>

definition status_with_subordinate :: status where
  "status_with_subordinate =
     one_service ''a''
       [(''a/0'', \<lparr>u_info = modern_unit ''idle'' ''1.24.0'',
                   u_subordinates = Some [(''b/0'', modern_unit ''idle'' ''1.24.0'')]\<rparr>)]"

text \<open>A unit without agent status that is dying and in the error state.\<close>

definition status_dying_error :: status where
  "status_dying_error =
     one_service ''a'' [(''a/0'', principal (legacy_info (Some ''dying'') ''error'' ''1.22.0''))]"

text \<open>
  Two polls of an empty cluster, the second one exactly 15 seconds after the first, and
  two polls of which the second comes a microsecond later.
\<close>

definition boundary_run :: "world list" where
  "boundary_run = [world_of empty_status no_cmd 0, world_of empty_status no_cmd 15000000]"

definition elapsed_run :: "world list" where
  "elapsed_run = [world_of empty_status no_cmd 0, world_of empty_status no_cmd 15000001]"



text \<open>
  Two units without agent status, the first still pending and the second started,
  and the second of them alone.
\<close>

definition status_pending_started :: status where
  "status_pending_started =
     one_service ''a''
       [(''a/0'', principal (legacy_info None ''pending'' ''1.22.0'')),
        (''a/1'', principal (legacy_info None ''started'' ''1.22.0''))]"

definition status_started :: status where
  "status_started = one_service ''a'' [(''a/1'', principal (legacy_info None ''started'' ''1.22.0''))]"

text \<open>The variables after one cycle over \<open>status_pending_started\<close>.\<close>

definition after_pending :: vars where
  "after_pending =
     \<lparr>prev_logs = [], ready_since = None, logging_reset = False, ready = False, logs = [],
      trace = [status_cmd]\<rparr>"

text \<open>Two polls, four seconds apart, of one started unit without agent status.\<close>

definition sniffing_run :: "world list" where
  "sniffing_run = [world_of status_started ok_cmd 0, world_of status_started ok_cmd 4000000]"

text \<open>
  Two services of idle units: the units of \<^verbatim>\<open>old\<close> run 1.22.0, the unit of \<^verbatim>\<open>new\<close> runs
  1.23.0. Of the old units the first answers \<^verbatim>\<open>false\<close> to \<^verbatim>\<open>is-leader\<close> and the second
  \<^verbatim>\<open>true\<close>.
\<close>

definition status_mixed :: status where
  "status_mixed =
     \<lparr>st_services = Some
        [(''old'', \<lparr>s_life = None,
                    s_units = Some [(''old/0'', principal (modern_unit ''idle'' ''1.22.0'')),
                                    (''old/1'', principal (modern_unit ''idle'' ''1.22.0''))]\<rparr>),
         (''new'', \<lparr>s_life = None,
                    s_units = Some [(''new/0'', principal (modern_unit ''idle'' ''1.23.0''))]\<rparr>)]\<rparr>"

definition second_leads :: "cmd \<Rightarrow> proc" where
  "second_leads c = (if c = is_leader_cmd ''old/1'' then Exited 0 ''true'' [] else Exited 0 ''false'' [])"

section \<open>Properties\<close>


subsection \<open>Commands\<close>

lemma str_nat_timeout: "str_nat (6 * 60 * 60) = ''21600''"
  by (simp add: str_nat.simps)

lemma juju_run_cmd_None:
  "juju_run_cmd unit c None = [''juju'', ''run'', ''--timeout=21600s'', ''--unit'', unit, c]"
  using str_nat_timeout by (simp add: juju_run_cmd_def)

lemma log_tail_cmd_inj: "log_tail_cmd u = log_tail_cmd u' \<longleftrightarrow> u = u'"
  by (auto simp: log_tail_cmd_def juju_run_cmd_None)

lemma is_leader_cmd_inj: "is_leader_cmd u = is_leader_cmd u' \<longleftrightarrow> u = u'"
  by (auto simp: is_leader_cmd_def juju_run_cmd_None)

lemma cmds_distinct:
  "log_tail_cmd u \<noteq> reset_cmd" "log_tail_cmd u \<noteq> status_cmd" "log_tail_cmd u \<noteq> is_leader_cmd u'"
  "is_leader_cmd u \<noteq> reset_cmd" "is_leader_cmd u \<noteq> status_cmd" "is_leader_cmd u' \<noteq> log_tail_cmd u"
  "reset_cmd \<noteq> status_cmd" "reset_cmd \<noteq> log_tail_cmd u" "reset_cmd \<noteq> is_leader_cmd u"
  "status_cmd \<noteq> reset_cmd" "status_cmd \<noteq> log_tail_cmd u" "status_cmd \<noteq> is_leader_cmd u"
  by (simp_all add: log_tail_cmd_def is_leader_cmd_def juju_run_cmd_None reset_cmd_def status_cmd_def)

subsection \<open>What each helper adds to the trace\<close>

lemma get_log_tail_run: "get_log_tail w u None tr = run_or_die w (log_tail_cmd u) tr"
  by (simp add: get_log_tail_def juju_run_def log_tail_cmd_def)

lemma get_is_leader_run:
  "get_is_leader w u None tr =
     (case run_or_die w (is_leader_cmd u) tr of
        Inl x \<Rightarrow> Inl x
      | Inr (raw, tr') \<Rightarrow>
          (case json_loads w raw of
             None \<Rightarrow> Inl (ValueError, tr')
           | Some j \<Rightarrow> Inr (j, tr')))"
  by (simp add: get_is_leader_def juju_run_def is_leader_cmd_def)

lemma run_or_die_Inr:
  "run_or_die w c tr = Inr (out, tr') \<longleftrightarrow> (\<exists>err. popen w c = Exited 0 out err) \<and> tr' = tr @ [c]"
  by (auto simp: run_or_die_def split: proc.splits if_splits)

lemma run_or_die_Inl:
  "run_or_die w c tr = Inl (e, tr') \<Longrightarrow> tr' = tr @ [c] \<and> (\<exists>n. e = JujuWaitException n) \<and> \<not> succeeds w c"
  by (auto simp: run_or_die_def succeeds_def split: proc.splits if_splits)

lemma run_or_die_succeeds:
  "succeeds w c \<Longrightarrow> \<exists>out. run_or_die w c tr = Inr (out, tr @ [c])"
  by (auto simp: run_or_die_def succeeds_def split: proc.splits)

lemma get_log_tail_Inr:
  "get_log_tail w u None tr = Inr (line, tr') \<longleftrightarrow> fetched w u = Some line \<and> tr' = tr @ [log_tail_cmd u]"
  by (auto simp: get_log_tail_run run_or_die_def fetched_def split: proc.splits if_splits)

lemma get_log_tail_Inl:
  "get_log_tail w u None tr = Inl (e, tr') \<Longrightarrow>
     tr' = tr @ [log_tail_cmd u] \<and> (\<exists>n. e = JujuWaitException n) \<and> \<not> succeeds w (log_tail_cmd u)"
  unfolding get_log_tail_run by (rule run_or_die_Inl)

lemma reset_logging_Inr:
  "reset_logging w tr = Inr (u, tr') \<Longrightarrow> tr' = tr @ [reset_cmd]"
  by (auto simp: reset_logging_def run_or_die_Inr split: sum.splits prod.splits)

lemma reset_logging_Inl:
  "reset_logging w tr = Inl (e, tr') \<Longrightarrow>
     tr' = tr @ [reset_cmd] \<and> (\<exists>n. e = JujuWaitException n) \<and> \<not> succeeds w reset_cmd"
  by (auto simp: reset_logging_def split: sum.splits prod.splits dest: run_or_die_Inl)

lemma get_is_leader_Inr:
  "get_is_leader w u None tr = Inr (j, tr') \<Longrightarrow> tr' = tr @ [is_leader_cmd u]"
  by (auto simp: get_is_leader_run run_or_die_Inr split: sum.splits prod.splits option.splits)

lemma get_is_leader_Inl:
  "get_is_leader w u None tr = Inl (e, tr') \<Longrightarrow> tr' = tr @ [is_leader_cmd u]"
  by (auto simp: get_is_leader_run run_or_die_Inr split: sum.splits prod.splits option.splits
      dest: run_or_die_Inl)

lemma get_status_Inr:
  "get_status w tr = Inr (st, tr') \<Longrightarrow> tr' = tr @ [status_cmd]"
  by (auto simp: get_status_def run_or_die_Inr split: sum.splits prod.splits option.splits)

lemma get_status_Inl:
  "get_status w tr = Inl (e, tr') \<Longrightarrow> tr' = tr @ [status_cmd]"
  by (auto simp: get_status_def run_or_die_Inr split: sum.splits prod.splits option.splits
      dest: run_or_die_Inl)

subsection \<open>Sorted items\<close>

lemma sorted_items_mem:
  "map_of xs k = Some x \<Longrightarrow> (k, x) \<in> set (sort_key fst xs)"
  by (simp add: map_of_SomeD)


subsection \<open>Sniffing one unit\<close>

lemma sniff_Inr:
  assumes "sniff w u v = Inr v'"
  shows "\<exists>line. fetched w u = Some line
           \<and> v' = v\<lparr>logging_reset := True,
                    trace := trace v @ (if logging_reset v then [] else [reset_cmd]) @ [log_tail_cmd u],
                    logs := AList.update u line (logs v),
                    ready := (ready v \<and> map_of (prev_logs v) u = Some line)\<rparr>"
  using assms
  by (auto simp: sniff_def Let_def get_log_tail_Inr split: if_splits sum.splits prod.splits
      dest!: reset_logging_Inr)

lemma sniff_Inl:
  assumes "sniff w u v = Inl (e, tr)"
  shows "(\<exists>n. e = JujuWaitException n) \<and>
         (\<not> logging_reset v \<and> \<not> succeeds w reset_cmd \<and> tr = trace v @ [reset_cmd]
          \<or> \<not> succeeds w (log_tail_cmd u)
             \<and> tr = trace v @ (if logging_reset v then [] else [reset_cmd]) @ [log_tail_cmd u])"
  using assms
  by (auto simp: sniff_def Let_def split: if_splits sum.splits prod.splits
      dest!: reset_logging_Inr reset_logging_Inl get_log_tail_Inl)

lemma sniff_succeeds:
  assumes "logging_reset v \<or> succeeds w reset_cmd" and "fetched w u = Some line"
  shows "sniff w u v =
          Inr (v\<lparr>logging_reset := True,
                 trace := trace v @ (if logging_reset v then [] else [reset_cmd]) @ [log_tail_cmd u],
                 logs := AList.update u line (logs v),
                 ready := (ready v \<and> map_of (prev_logs v) u = Some line)\<rparr>)"
proof (cases "sniff w u v")
  case (Inl x)
  obtain e tr where "x = (e, tr)" by (cases x)
  with Inl sniff_Inl [of w u v e tr] assms show ?thesis
    by (auto simp: succeeds_def fetched_def split: proc.splits if_splits)
next
  case (Inr v')
  with sniff_Inr [OF Inr] assms show ?thesis by auto
qed


subsection \<open>The loop over the units without agent status\<close>

lemma legacy_unit_not_ready:
  "legacy_unit w uname unit v = Inr v' \<Longrightarrow> \<not> ready v \<Longrightarrow> \<not> ready v'"
  by (auto simp: legacy_unit_def Let_def split: if_splits)

lemma legacy_unit_idle_Inr:
  assumes "\<not> ready v" and "legacy_unit w uname unit v = Inr v'"
  shows "v' = v"
  using assms by (auto simp: legacy_unit_def Let_def split: if_splits)

lemma legacy_unit_idle_Inl:
  assumes "\<not> ready v" and "legacy_unit w uname unit v = Inl (e, tr)"
  shows "e = JujuWaitException 1 \<and> tr = trace v"
  using assms by (auto simp: legacy_unit_def Let_def split: if_splits)

lemma legacy_loop_idle_Inr:
  "\<not> ready v \<Longrightarrow> legacy_loop w xs v = Inr v' \<Longrightarrow> v' = v"
proof (induction xs)
  case Nil
  then show ?case by simp
next
  case (Cons x xs)
  obtain n u where x: "x = (n, u)" by (cases x)
  from Cons.prems(2) obtain v1 where
    s: "legacy_unit w n u v = Inr v1" and r: "legacy_loop w xs v1 = Inr v'"
    by (auto simp: x split: sum.splits)
  from legacy_unit_idle_Inr [OF Cons.prems(1) s] have "v1 = v" .
  with r Cons.IH Cons.prems(1) show ?case by simp
qed

lemma legacy_loop_idle_Inl:
  "\<not> ready v \<Longrightarrow> legacy_loop w xs v = Inl (e, tr) \<Longrightarrow> e = JujuWaitException 1 \<and> tr = trace v"
proof (induction xs)
  case Nil
  then show ?case by simp
next
  case (Cons x xs)
  obtain n u where x: "x = (n, u)" by (cases x)
  show ?case
  proof (cases "legacy_unit w n u v")
    case (Inl y)
    with Cons.prems(2) x have "legacy_unit w n u v = Inl (e, tr)" by simp
    from legacy_unit_idle_Inl [OF Cons.prems(1) this] show ?thesis .
  next
    case (Inr v1)
    from legacy_unit_idle_Inr [OF Cons.prems(1) Inr] have "v1 = v" .
    with Inr Cons.prems(2) x have "legacy_loop w xs v = Inl (e, tr)" by simp
    from Cons.IH [OF Cons.prems(1) this] show ?thesis .
  qed
qed

lemma legacy_loop_not_ready:
  "legacy_loop w xs v = Inr v' \<Longrightarrow> \<not> ready v \<Longrightarrow> \<not> ready v'"
  using legacy_loop_idle_Inr by blast

lemma legacy_loop_append:
  "legacy_loop w (xs @ ys) v =
     (case legacy_loop w xs v of Inl x \<Rightarrow> Inl x | Inr v' \<Rightarrow> legacy_loop w ys v')"
  by (induction xs arbitrary: v) (auto split: sum.splits)

lemma legacy_unit_dying:
  "dying (u_life unit) \<Longrightarrow> legacy_unit w uname unit v = Inr (v\<lparr>ready := False\<rparr>)"
  by (simp add: legacy_unit_def)

lemma legacy_loop_dying:
  "legacy_loop w xs v = Inr v' \<Longrightarrow> (uname, unit) \<in> set xs \<Longrightarrow> dying (u_life unit) \<Longrightarrow> \<not> ready v'"
proof (induction xs arbitrary: v)
  case Nil
  then show ?case by simp
next
  case (Cons x xs)
  obtain n u where x: "x = (n, u)" by (cases x)
  from Cons.prems(1) obtain v1 where
    s: "legacy_unit w n u v = Inr v1" and r: "legacy_loop w xs v1 = Inr v'"
    by (auto simp: x split: sum.splits)
  show ?case
  proof (cases "(uname, unit) = x")
    case True
    with s x Cons.prems(3) have "\<not> ready v1" by (auto simp: legacy_unit_dying)
    with r show ?thesis by (rule legacy_loop_not_ready)
  next
    case False
    with Cons.prems(2) have "(uname, unit) \<in> set xs" by auto
    from Cons.IH [OF r this Cons.prems(3)] show ?thesis .
  qed
qed

subsection \<open>The log cache and the commands\<close>

lemma logs_stepI:
  assumes "trace v' = trace v @ X" and "set X \<subseteq> insert reset_cmd (range log_tail_cmd)"
    and "\<And>u. map_of (logs v') u = (if log_tail_cmd u \<in> set X then fetched w u else map_of (logs v) u)"
    and "prev_logs v' = prev_logs v" and "ready_since v' = ready_since v"
  shows "logs_step w v v'"
  unfolding logs_step_def
  apply (rule exI [where x = X])
  using assms apply simp
  done

lemma logs_step_refl: "logs_step w v v"
  by (rule logs_stepI [where X = "[]"]) simp_all

lemma logs_step_trans:
  assumes "logs_step w v v1" and "logs_step w v1 v2"
  shows "logs_step w v v2"
proof -
  from assms(1) [unfolded logs_step_def] obtain X where
    "trace v1 = trace v @ X \<and> set X \<subseteq> insert reset_cmd (range log_tail_cmd)
      \<and> (\<forall>u. map_of (logs v1) u = (if log_tail_cmd u \<in> set X then fetched w u else map_of (logs v) u))
      \<and> prev_logs v1 = prev_logs v \<and> ready_since v1 = ready_since v" ..
  then have X: "trace v1 = trace v @ X" "set X \<subseteq> insert reset_cmd (range log_tail_cmd)"
    "\<And>u. map_of (logs v1) u = (if log_tail_cmd u \<in> set X then fetched w u else map_of (logs v) u)"
    "prev_logs v1 = prev_logs v" "ready_since v1 = ready_since v"
    by simp_all
  from assms(2) [unfolded logs_step_def] obtain Y where
    "trace v2 = trace v1 @ Y \<and> set Y \<subseteq> insert reset_cmd (range log_tail_cmd)
      \<and> (\<forall>u. map_of (logs v2) u = (if log_tail_cmd u \<in> set Y then fetched w u else map_of (logs v1) u))
      \<and> prev_logs v2 = prev_logs v1 \<and> ready_since v2 = ready_since v1" ..
  then have Y: "trace v2 = trace v1 @ Y" "set Y \<subseteq> insert reset_cmd (range log_tail_cmd)"
    "\<And>u. map_of (logs v2) u = (if log_tail_cmd u \<in> set Y then fetched w u else map_of (logs v1) u)"
    "prev_logs v2 = prev_logs v1" "ready_since v2 = ready_since v1"
    by simp_all
  show ?thesis
  proof (rule logs_stepI [where X = "X @ Y"])
    show "trace v2 = trace v @ X @ Y" using X(1) Y(1) by simp
    show "set (X @ Y) \<subseteq> insert reset_cmd (range log_tail_cmd)" using X(2) Y(2) by simp
    show "map_of (logs v2) u = (if log_tail_cmd u \<in> set (X @ Y) then fetched w u else map_of (logs v) u)" for u
      by (simp add: X(3) Y(3))
    show "prev_logs v2 = prev_logs v" using X(4) Y(4) by simp
    show "ready_since v2 = ready_since v" using X(5) Y(5) by simp
  qed
qed

lemma sniff_logs_step:
  assumes "sniff w u v = Inr v'"
  shows "logs_step w v v'"
proof -
  from sniff_Inr [OF assms] obtain line where l: "fetched w u = Some line"
    and v': "v' = v\<lparr>logging_reset := True,
                    trace := trace v @ (if logging_reset v then [] else [reset_cmd]) @ [log_tail_cmd u],
                    logs := AList.update u line (logs v),
                    ready := (ready v \<and> map_of (prev_logs v) u = Some line)\<rparr>"
    by blast
  show ?thesis
  proof (rule logs_stepI [where X = "(if logging_reset v then [] else [reset_cmd]) @ [log_tail_cmd u]"])
    show "trace v' = trace v @ (if logging_reset v then [] else [reset_cmd]) @ [log_tail_cmd u]"
      by (simp add: v')
    show "set ((if logging_reset v then [] else [reset_cmd]) @ [log_tail_cmd u])
            \<subseteq> insert reset_cmd (range log_tail_cmd)" by simp
    show "map_of (logs v') u' =
           (if log_tail_cmd u' \<in> set ((if logging_reset v then [] else [reset_cmd]) @ [log_tail_cmd u])
            then fetched w u' else map_of (logs v) u')" for u'
      using l by (simp add: v' update_conv' log_tail_cmd_inj cmds_distinct)
    show "prev_logs v' = prev_logs v" by (simp add: v')
    show "ready_since v' = ready_since v" by (simp add: v')
  qed
qed

lemma legacy_unit_cases:
  obtains (dying) "dying (u_life x)" "legacy_unit w u x v = Inr (v\<lparr>ready := False\<rparr>)"
  | (error) "\<not> dying (u_life x)" "u_agent_state x = Some ''error''"
      "legacy_unit w u x v = Inl (JujuWaitException 1, trace v)"
  | (pending) "\<not> dying (u_life x)" "u_agent_state x \<noteq> Some ''error''"
      "u_agent_state x \<noteq> Some ''started''" "legacy_unit w u x v = Inr (v\<lparr>ready := False\<rparr>)"
  | (sniff) "\<not> dying (u_life x)" "u_agent_state x = Some ''started''" "ready v"
      "legacy_unit w u x v = sniff w u v"
  | (skip) "\<not> dying (u_life x)" "u_agent_state x = Some ''started''" "\<not> ready v"
      "legacy_unit w u x v = Inr v"
  unfolding legacy_unit_def Let_def by (cases "dying (u_life x)"; cases "u_agent_state x = Some ''error''";
      cases "u_agent_state x = Some ''started''"; cases "ready v"; simp)

lemma legacy_unit_logs_step:
  assumes "legacy_unit w u x v = Inr v'"
  shows "logs_step w v v'"
proof (cases rule: legacy_unit_cases [of x w u v])
  case dying
  with assms have "v' = v\<lparr>ready := False\<rparr>" by simp
  then show ?thesis by (intro logs_stepI [where X = "[]"]) simp_all
next
  case error
  with assms show ?thesis by simp
next
  case pending
  with assms have "v' = v\<lparr>ready := False\<rparr>" by simp
  then show ?thesis by (intro logs_stepI [where X = "[]"]) simp_all
next
  case sniff
  with assms have "sniff w u v = Inr v'" by simp
  then show ?thesis by (rule sniff_logs_step)
next
  case skip
  with assms have "v' = v" by simp
  then show ?thesis by (simp add: logs_step_refl)
qed

lemma legacy_loop_logs_step:
  "legacy_loop w xs v = Inr v' \<Longrightarrow> logs_step w v v'"
proof (induction xs arbitrary: v)
  case Nil
  then show ?case by (simp add: logs_step_refl)
next
  case (Cons x xs)
  obtain n u where x: "x = (n, u)" by (cases x)
  from Cons.prems(1) obtain v1 where
    s: "legacy_unit w n u v = Inr v1" and r: "legacy_loop w xs v1 = Inr v'"
    by (auto simp: x split: sum.splits)
  from legacy_unit_logs_step [OF s] Cons.IH [OF r] show ?case by (rule logs_step_trans)
qed


subsection \<open>One evaluation, step by step\<close>

lemma get_status_polled:
  "get_status w tr = Inr (st, tr') \<longleftrightarrow> polled w = Some st \<and> tr' = tr @ [status_cmd]"
  by (auto simp: polled_def get_status_def run_or_die_def
      split: proc.splits if_splits option.splits sum.splits prod.splits)

lemma get_status_raises:
  "polled w = None \<Longrightarrow> \<exists>e. get_status w tr = Inl (e, tr @ [status_cmd])"
  by (auto simp: polled_def get_status_def run_or_die_def
      split: proc.splits if_splits option.splits sum.splits prod.splits)

lemma leads_grows:
  assumes "leads w uname version tr = Inr (b, tr')"
  shows "tr' = tr \<or> tr' = tr @ [is_leader_cmd uname]"
  using assms
  by (auto simp: leads_def split: option.splits if_splits sum.splits prod.splits bool.splits
      dest!: get_is_leader_Inr)

lemma leader_loop_grows:
  "leader_loop w xs s0 l0 tr0 = Inr (s', l', tr')
     \<Longrightarrow> \<exists>X. tr' = tr0 @ X \<and> set X \<subseteq> range is_leader_cmd"
proof (induction xs arbitrary: s0 l0 tr0)
  case Nil
  then show ?case by simp
next
  case (Cons x xs)
  obtain uname version where x: "x = (uname, version)" by (cases x)
  show ?case
  proof (cases "service_of uname \<in> l0")
    case True
    with Cons.prems x have "leader_loop w xs (insert (service_of uname) s0) l0 tr0 = Inr (s', l', tr')"
      by (simp add: Let_def)
    from Cons.IH [OF this] show ?thesis .
  next
    case False
    with Cons.prems x obtain b tr1 l1 where
      ld: "leads w uname version tr0 = Inr (b, tr1)"
      and r: "leader_loop w xs (insert (service_of uname) s0) l1 tr1 = Inr (s', l', tr')"
      by (auto simp: Let_def split: sum.splits prod.splits bool.splits)
    from Cons.IH [OF r] obtain X where X: "tr' = tr1 @ X" "set X \<subseteq> range is_leader_cmd" by blast
    from leads_grows [OF ld] show ?thesis
    proof
      assume "tr1 = tr0"
      with X show ?thesis by blast
    next
      assume "tr1 = tr0 @ [is_leader_cmd uname]"
      with X have "tr' = tr0 @ (is_leader_cmd uname # X)" "set (is_leader_cmd uname # X) \<subseteq> range is_leader_cmd"
        by simp_all
      then show ?thesis by blast
    qed
  qed
qed

lemma check_leaders_Inr:
  assumes "check_leaders w c v = Inr v'"
  obtains X b where "v' = v\<lparr>ready := b, trace := trace v @ X\<rparr>" and "b \<longrightarrow> ready v"
    and "set X \<subseteq> range is_leader_cmd"
proof (cases "ready v")
  case False
  with assms have "v' = v\<lparr>ready := False, trace := trace v @ []\<rparr>" by (simp add: check_leaders_def)
  with False that [of "[]" False] show ?thesis by simp
next
  case True
  with assms obtain s l tr where
    l: "leader_loop w (agent_version c) {} {} (trace v) = Inr (s, l, tr)"
    and v': "v' = v\<lparr>ready := (if s \<subseteq> l then ready v else False), trace := tr\<rparr>"
    by (auto simp: check_leaders_def split: sum.splits prod.splits)
  from leader_loop_grows [OF l] obtain X where "tr = trace v @ X" "set X \<subseteq> range is_leader_cmd"
    by blast
  with v' that [of X "if s \<subseteq> l then ready v else False"] show ?thesis by simp
qed

lemma evaluate_InrE:
  assumes "evaluate w v = Inr (v', c)"
  obtains st r v1 where "polled w = Some st" and "c = collect_units st"
    and "check_agent_status w (sort_key fst (agent_status c)) (check_services st True) = Inr r"
    and "legacy_loop w (sort_key fst (ready_units c))
           (v\<lparr>trace := trace v @ [status_cmd], ready := r, logs := []\<rparr>) = Inr v1"
    and "check_leaders w c v1 = Inr v'"
proof -
  from assms obtain st tr where g: "get_status w (trace v) = Inr (st, tr)"
    by (auto simp: evaluate_def split: sum.splits)
  then have p: "polled w = Some st" and tr: "tr = trace v @ [status_cmd]"
    by (simp_all add: get_status_polled)
  from assms g obtain r where
    r: "check_agent_status w (sort_key fst (agent_status (collect_units st))) (check_services st True) = Inr r"
    by (auto simp: evaluate_def Let_def split: sum.splits)
  from assms g r obtain v1 where
    l: "legacy_loop w (sort_key fst (ready_units (collect_units st)))
          (v\<lparr>trace := tr, ready := r, logs := []\<rparr>) = Inr v1"
    by (auto simp: evaluate_def Let_def split: sum.splits)
  from assms g r l have "check_leaders w (collect_units st) v1 = Inr v'" and "c = collect_units st"
    by (auto simp: evaluate_def Let_def split: sum.splits)
  with p r l tr that show ?thesis by simp
qed

lemma evaluate_keeps:
  assumes "evaluate w v = Inr (v', c)"
  shows "ready_since v' = ready_since v \<and> prev_logs v' = prev_logs v"
proof -
  from assms obtain st r v1 where
    l: "legacy_loop w (sort_key fst (ready_units c))
           (v\<lparr>trace := trace v @ [status_cmd], ready := r, logs := []\<rparr>) = Inr v1"
    and c: "check_leaders w c v1 = Inr v'"
    by (rule evaluate_InrE)
  from legacy_loop_logs_step [OF l] have "ready_since v1 = ready_since v \<and> prev_logs v1 = prev_logs v"
    by (auto simp: logs_step_def)
  moreover from c obtain X b where "v' = v1\<lparr>ready := b, trace := trace v1 @ X\<rparr>"
    by (rule check_leaders_Inr)
  ultimately show ?thesis by simp
qed

subsection \<open>One turn of the loop, by its verdict\<close>

lemma cycle_raises:
  "verdict w v = None \<Longrightarrow> \<exists>e tr. cycle w v = Raised e tr"
  by (auto simp: verdict_def cycle_def split: sum.splits prod.splits)

lemma cycle_not_ready:
  "verdict w v = Some False \<Longrightarrow> \<exists>v'. cycle w v = Polling v' \<and> ready_since v' = None"
  by (auto simp: verdict_def cycle_def split: sum.splits prod.splits)

lemma cycle_ready_first:
  assumes "verdict w v = Some True" and "ready_since v = None"
  shows "\<exists>v'. cycle w v = Polling v' \<and> ready_since v' = Some (utcnow w)"
proof -
  from assms(1) obtain v' c where e: "evaluate w v = Inr (v', c)" and r: "ready v'"
    by (auto simp: verdict_def split: sum.splits prod.splits)
  from evaluate_keeps [OF e] assms(2) have "ready_since v' = None" by simp
  with e r show ?thesis by (simp add: cycle_def)
qed

lemma cycle_ready_later:
  assumes "verdict w v = Some True" and "ready_since v = Some t"
  shows "if t + IDLE_CONFIRMATION < utcnow w
         then \<exists>v' units. cycle w v = Returned v' units \<and> ready_since v' = Some t
         else \<exists>v'. cycle w v = Polling v' \<and> ready_since v' = Some t"
proof -
  from assms(1) obtain v' c where e: "evaluate w v = Inr (v', c)" and r: "ready v'"
    by (auto simp: verdict_def split: sum.splits prod.splits)
  from evaluate_keeps [OF e] assms(2) have "ready_since v' = Some t" by simp
  with e r show ?thesis by (simp add: cycle_def)
qed

lemma cycle_Returned:
  assumes "cycle w v = Returned v' units"
  shows "verdict w v = Some True \<and> (\<exists>t. ready_since v = Some t \<and> t + IDLE_CONFIRMATION < utcnow w)"
proof (cases "verdict w v")
  case None
  from cycle_raises [OF this] assms show ?thesis by auto
next
  case (Some b)
  show ?thesis
  proof (cases b)
    case False
    with Some cycle_not_ready [of w v] assms show ?thesis by auto
  next
    case True
    show ?thesis
    proof (cases "ready_since v")
      case None
      with Some True cycle_ready_first [of w v] assms show ?thesis by auto
    next
      case (Some t)
      with \<open>verdict w v = Some b\<close> True cycle_ready_later [of w v t] assms show ?thesis
        by (auto split: if_splits)
    qed
  qed
qed

subsection \<open>Runs\<close>

lemma wait_loop_append:
  "wait_loop (xs @ ys) v =
     (case wait_loop xs v of
        Polling v' \<Rightarrow> wait_loop ys v'
      | Returned v' units \<Rightarrow> Returned v' units
      | Raised e tr \<Rightarrow> Raised e tr)"
  by (induction xs arbitrary: v) (auto split: run.splits)

lemma wait_take_Suc:
  assumes "k < length ws"
  shows "wait (take (Suc k) ws) =
     (case wait (take k ws) of
        Polling v \<Rightarrow> cycle (ws ! k) v
      | Returned v' units \<Rightarrow> Returned v' units
      | Raised e tr \<Rightarrow> Raised e tr)"
  using assms by (simp add: wait_def take_Suc_conv_app_nth wait_loop_append split: run.splits)


subsection \<open>Evaluation of the samples\<close>

lemmas sample_defs =
  modern_unit_def legacy_info_def principal_def one_service_def world_of_def empty_status_def
  no_cmd_def ok_cmd_def init_def

lemmas helper_defs =
  get_status_def run_or_die_def status_cmd_def parse_ts_def reset_logging_def get_log_tail_run
  get_is_leader_run reset_cmd_def log_tail_cmd_def is_leader_cmd_def juju_run_cmd_None

lemmas version_defs =
  LooseVersion_def version_ge_def char_class_of_def int_of_digits_def digit_val_def

lemmas loop_defs =
  wait_def cycle_def evaluate_def check_services_def status_services_def dying_def
  collect_units_def service_units_def collect_unit_def unit_subordinates_def file_unit_def
  check_leaders_def leads_def service_of_def legacy_unit_def sniff_def IDLE_CONFIRMATION_def
  Let_def

subsection \<open>The units of the success message\<close>

text \<open>
  C2. The set \<^verbatim>\<open>all_units\<close> is said to hold every principal unit and every subordinate
  of the cycle's status. The code adds the principal units only: for a status with
  the unit \<^verbatim>\<open>a/0\<close> and its subordinate \<^verbatim>\<open>b/0\<close>, both idle, \<^verbatim>\<open>wait\<close> returns with
  \<^verbatim>\<open>all_units\<close> being \<^verbatim>\<open>a/0\<close> alone, although the subordinate was seen (its version
  is on file).
\<close>

theorem all_units_omits_subordinate:
  "all_units (collect_units status_with_subordinate) = {''a/0''}
   \<and> map fst (agent_version (collect_units status_with_subordinate)) = [''a/0'', ''b/0'']
   \<and> (\<exists>v. wait [world_of status_with_subordinate no_cmd 0,
                 world_of status_with_subordinate no_cmd 15000001] = Returned v {''a/0''})"
  by (simp add: status_with_subordinate_def sample_defs helper_defs version_defs loop_defs)

subsection \<open>A dying unit in the error state\<close>

text \<open>
  C9. A unit without agent status whose life is \<^verbatim>\<open>dying\<close> or \<^verbatim>\<open>dead\<close> and whose agent
  state is \<^verbatim>\<open>error\<close> does not raise: its turn in the loop only sets \<^verbatim>\<open>ready\<close> to
  false, and a cycle whose status holds such a unit never returns; unless another
  step of the cycle raises, the loop goes on polling with \<^verbatim>\<open>ready_since\<close> cleared.
\<close>

theorem dying_error_unit_not_fatal:
  assumes "dying (u_life unit)" and "u_agent_state unit = Some ''error''"
  shows "legacy_unit w uname unit v = Inr (v\<lparr>ready := False\<rparr>)
    \<and> (get_status w (trace v0) = Inr (st, tr)
         \<and> map_of (ready_units (collect_units st)) uname = Some unit
       \<longrightarrow> (\<exists>v'. cycle w v0 = Polling v' \<and> ready_since v' = None)
           \<or> (\<exists>e tr'. cycle w v0 = Raised e tr'))"
proof (intro conjI impI)
  show "legacy_unit w uname unit v = Inr (v\<lparr>ready := False\<rparr>)"
    using assms(1) by (rule legacy_unit_dying)
  assume a: "get_status w (trace v0) = Inr (st, tr) \<and> map_of (ready_units (collect_units st)) uname = Some unit"
  then have g: "get_status w (trace v0) = Inr (st, tr)"
    and mem: "(uname, unit) \<in> set (sort_key fst (ready_units (collect_units st)))"
    by (simp_all add: map_of_SomeD)
  show "(\<exists>v'. cycle w v0 = Polling v' \<and> ready_since v' = None) \<or> (\<exists>e tr'. cycle w v0 = Raised e tr')"
  proof (cases "evaluate w v0")
    case (Inl x)
    then show ?thesis by (cases x) (simp add: cycle_def)
  next
    case (Inr y)
    obtain v' c where y: "y = (v', c)" by (cases y)
    from Inr y g obtain r v1 where
      l: "legacy_loop w (sort_key fst (ready_units (collect_units st))) v1 = Inr r"
      and c: "check_leaders w (collect_units st) r = Inr v'"
      by (auto simp: evaluate_def Let_def split: sum.splits)
    from legacy_loop_dying [OF l mem assms(1)] have "\<not> ready r" .
    with c have "\<not> ready v'" by (auto simp: check_leaders_def)
    with Inr y have "cycle w v0 = Polling (v'\<lparr>ready_since := None, prev_logs := logs v'\<rparr>)"
      by (simp add: cycle_def)
    then show ?thesis by simp
  qed
qed

theorem dying_error_unit_not_fatal_witness:
  "dying (u_life (legacy_info (Some ''dying'') ''error'' ''1.22.0''))
   \<and> u_agent_state (legacy_info (Some ''dying'') ''error'' ''1.22.0'') = Some ''error''
   \<and> get_status (world_of status_dying_error no_cmd 0) (trace init) = Inr (status_dying_error, [status_cmd])
   \<and> map_of (ready_units (collect_units status_dying_error)) ''a/0''
       = Some (legacy_info (Some ''dying'') ''error'' ''1.22.0'')
   \<and> legacy_unit (world_of status_dying_error no_cmd 0) ''a/0''
        (legacy_info (Some ''dying'') ''error'' ''1.22.0'') init = Inr (init\<lparr>ready := False\<rparr>)
   \<and> (\<exists>v'. cycle (world_of status_dying_error no_cmd 0) init = Polling v' \<and> ready_since v' = None)"
proof -
  let ?u = "legacy_info (Some ''dying'') ''error'' ''1.22.0''"
  let ?w = "world_of status_dying_error no_cmd 0"
  have h1: "dying (u_life ?u)" and h2: "u_agent_state ?u = Some ''error''"
    by (simp_all add: legacy_info_def dying_def)
  have h3: "get_status ?w (trace init) = Inr (status_dying_error, [status_cmd])"
    by (simp add: sample_defs helper_defs)
  have h4: "map_of (ready_units (collect_units status_dying_error)) ''a/0'' = Some ?u"
    by (simp add: status_dying_error_def sample_defs loop_defs)
  have h5: "\<not> (\<exists>e tr'. cycle ?w init = Raised e tr')"
    by (simp add: status_dying_error_def sample_defs helper_defs loop_defs)
  from dying_error_unit_not_fatal [OF h1 h2, of ?w "''a/0''" init init status_dying_error "[status_cmd]"]
    h1 h2 h3 h4 h5
  show ?thesis by blast
qed


subsection \<open>The confirmation window\<close>

lemma streak_inv:
  "k \<le> length ws \<Longrightarrow> wait (take k ws) = Polling v \<Longrightarrow>
     (case ready_since v of
        None \<Rightarrow> k = 0 \<or> \<not> ready_at ws (k - 1)
      | Some t \<Rightarrow> \<exists>j<k. t = utcnow (ws ! j) \<and> streak ws j k)"
proof (induction k arbitrary: v)
  case 0
  then show ?case by (auto simp: wait_def init_def)
next
  case (Suc k)
  from Suc.prems(1) have k: "k < length ws" by simp
  from Suc.prems(2) wait_take_Suc [OF k] obtain v0 where
    p: "wait (take k ws) = Polling v0" and c: "cycle (ws ! k) v0 = Polling v"
    by (auto split: run.splits)
  from Suc.IH [OF _ p] k have IH:
    "case ready_since v0 of
        None \<Rightarrow> k = 0 \<or> \<not> ready_at ws (k - 1)
      | Some t \<Rightarrow> \<exists>j<k. t = utcnow (ws ! j) \<and> streak ws j k" by simp
  have ra: "ready_at ws k \<longleftrightarrow> verdict (ws ! k) v0 = Some True"
    by (simp add: ready_at_def p)
  show ?case
  proof (cases "verdict (ws ! k) v0")
    case None
    from cycle_raises [OF this] c show ?thesis by auto
  next
    case (Some b)
    show ?thesis
    proof (cases b)
      case False
      with Some cycle_not_ready [of "ws ! k" v0] c have "ready_since v = None" by auto
      moreover from Some False ra have "\<not> ready_at ws k" by simp
      ultimately show ?thesis by simp
    next
      case True
      with Some ra have r: "ready_at ws k" by simp
      show ?thesis
      proof (cases "ready_since v0")
        case None
        with Some True cycle_ready_first [of "ws ! k" v0] c
        have "ready_since v = Some (utcnow (ws ! k))" by auto
        moreover from IH None r have "streak ws k (Suc k)" by (simp add: streak_def)
        ultimately show ?thesis by auto
      next
        case (Some t)
        with \<open>verdict (ws ! k) v0 = Some b\<close> True cycle_ready_later [of "ws ! k" v0 t] c
        have rs: "ready_since v = Some t" by (auto split: if_splits)
        from IH Some obtain j where j: "j < k" "t = utcnow (ws ! j)" "streak ws j k" by auto
        from j(3) r have "streak ws j (Suc k)"
          by (auto simp: streak_def less_Suc_eq)
        with j(1,2) rs have "j < Suc k \<and> t = utcnow (ws ! j) \<and> streak ws j (Suc k)" by simp
        with rs show ?thesis by auto
      qed
    qed
  qed
qed

lemma streak_unique:
  assumes "streak ws j k" and "streak ws j' k" and "j \<le> k" and "j' \<le> k"
  shows "j = j'"
proof (rule ccontr)
  assume "j \<noteq> j'"
  then consider "j < j'" | "j' < j" by linarith
  then show False
  proof cases
    case 1
    with assms(4) have "j' - 1 \<in> {j..<k}" "j' \<noteq> 0" by auto
    with assms(1,2) show False by (auto simp: streak_def)
  next
    case 2
    with assms(3) have "j - 1 \<in> {j'..<k}" "j \<noteq> 0" by auto
    with assms(1,2) show False by (auto simp: streak_def)
  qed
qed

text \<open>
  C1, as the code has it. In every run, \<^verbatim>\<open>wait\<close> returns in cycle \<open>k\<close> exactly when
  the verdict of cycle \<open>k\<close> is ready, an earlier cycle \<open>j\<close> starts a ready streak that
  lasts up to \<open>k\<close> (no cycle between them is not ready), and the clock of cycle \<open>k\<close>
  is strictly later than the clock of cycle \<open>j\<close> plus 15 seconds. A cycle whose verdict
  is not ready leaves \<^verbatim>\<open>ready_since\<close> cleared.
\<close>

theorem returns_iff_ready_streak:
  assumes "k < length ws"
  shows "(returns_at ws k \<longleftrightarrow>
           ready_at ws k
           \<and> (\<exists>j<k. streak ws j k \<and> utcnow (ws ! j) + IDLE_CONFIRMATION < utcnow (ws ! k)))
    \<and> (\<forall>v. wait (take k ws) = Polling v \<and> verdict (ws ! k) v = Some False
          \<longrightarrow> (\<exists>v'. wait (take (Suc k) ws) = Polling v' \<and> ready_since v' = None))"
proof -
  have fwd: "ready_at ws k \<and> (\<exists>j<k. streak ws j k \<and> utcnow (ws ! j) + IDLE_CONFIRMATION < utcnow (ws ! k))"
    if "returns_at ws k"
  proof -
    from that obtain v v' units where p: "wait (take k ws) = Polling v"
      and c: "cycle (ws ! k) v = Returned v' units"
      by (auto simp: returns_at_def split: run.splits)
    from cycle_Returned [OF c] obtain t where
      r: "verdict (ws ! k) v = Some True" and t: "ready_since v = Some t"
      and late: "t + IDLE_CONFIRMATION < utcnow (ws ! k)" by auto
    from streak_inv [OF _ p] assms t obtain j where "j < k" "t = utcnow (ws ! j)" "streak ws j k"
      by auto
    with late r p show ?thesis by (auto simp: ready_at_def)
  qed
  have bwd: "returns_at ws k"
    if a: "ready_at ws k \<and> (\<exists>j<k. streak ws j k \<and> utcnow (ws ! j) + IDLE_CONFIRMATION < utcnow (ws ! k))"
  proof -
    from a obtain v where p: "wait (take k ws) = Polling v" and r: "verdict (ws ! k) v = Some True"
      by (auto simp: ready_at_def split: run.splits)
    from a obtain j where j: "j < k" "streak ws j k"
      and late: "utcnow (ws ! j) + IDLE_CONFIRMATION < utcnow (ws ! k)" by auto
    from streak_inv [OF _ p] assms have inv:
      "case ready_since v of
          None \<Rightarrow> k = 0 \<or> \<not> ready_at ws (k - 1)
        | Some t \<Rightarrow> \<exists>j<k. t = utcnow (ws ! j) \<and> streak ws j k" by simp
    show ?thesis
    proof (cases "ready_since v")
      case None
      from j have "k - 1 \<in> {j..<k}" by auto
      with j(2) have "ready_at ws (k - 1)" by (auto simp: streak_def)
      with inv None j(1) show ?thesis by simp
    next
      case (Some t)
      with inv obtain j0 where j0: "j0 < k" "t = utcnow (ws ! j0)" "streak ws j0 k" by auto
      from streak_unique [OF j0(3) j(2)] j0(1) j(1) have "j0 = j" by simp
      with j0(2) late have "t + IDLE_CONFIRMATION < utcnow (ws ! k)" by simp
      with cycle_ready_later [OF r Some] obtain v' units where "cycle (ws ! k) v = Returned v' units"
        by auto
      with p show ?thesis by (simp add: returns_at_def)
    qed
  qed
  have clear: "\<exists>v'. wait (take (Suc k) ws) = Polling v' \<and> ready_since v' = None"
    if a: "wait (take k ws) = Polling v \<and> verdict (ws ! k) v = Some False" for v
  proof -
    from a cycle_not_ready [of "ws ! k" v] obtain v' where
      "cycle (ws ! k) v = Polling v'" "ready_since v' = None" by auto
    with a wait_take_Suc [OF assms] show ?thesis by simp
  qed
  from fwd bwd clear show ?thesis by blast
qed

lemma evaluate_empty:
  assumes "polled w = Some st" and "status_services st = []"
  shows "evaluate w v =
     Inr (v\<lparr>trace := trace v @ [status_cmd], ready := True, logs := []\<rparr>,
          \<lparr>all_units = {}, ready_units = [], agent_status = [], agent_version = []\<rparr>)"
proof -
  from assms(1) have "get_status w (trace v) = Inr (st, trace v @ [status_cmd])"
    by (simp add: get_status_polled)
  with assms(2) show ?thesis
    by (simp add: evaluate_def check_services_def collect_units_def check_leaders_def)
qed

lemma empty_world_evaluate:
  "evaluate (world_of empty_status no_cmd t) v =
     Inr (v\<lparr>trace := trace v @ [status_cmd], ready := True, logs := []\<rparr>,
          \<lparr>all_units = {}, ready_units = [], agent_status = [], agent_version = []\<rparr>)"
  by (rule evaluate_empty [where st = empty_status])
    (simp_all add: polled_def sample_defs helper_defs status_services_def)

lemma utcnow_world_of: "utcnow (world_of st p t) = t"
  by (simp add: world_of_def)

text \<open>
  The claim C1 puts the return at the first ready cycle at or past 15 seconds. With
  two ready polls exactly 15 seconds apart, the second cycle is ready, it ends a
  ready streak that starts at the first, the 15 seconds have passed, and \<^verbatim>\<open>wait\<close>
  does not return.
\<close>

theorem returns_at_boundary_counterexample:
  "ready_at boundary_run 1 \<and> streak boundary_run 0 1
   \<and> utcnow (boundary_run ! 0) + IDLE_CONFIRMATION \<le> utcnow (boundary_run ! 1)
   \<and> \<not> returns_at boundary_run 1"
  by (simp add: boundary_run_def ready_at_def streak_def returns_at_def verdict_def wait_def
      cycle_def empty_world_evaluate init_def IDLE_CONFIRMATION_def utcnow_world_of)

theorem returns_iff_ready_streak_witness:
  "1 < length elapsed_run \<and> ready_at elapsed_run 1 \<and> streak elapsed_run 0 1
   \<and> utcnow (elapsed_run ! 0) + IDLE_CONFIRMATION < utcnow (elapsed_run ! 1)
   \<and> returns_at elapsed_run 1"
proof -
  have h: "1 < length elapsed_run" by (simp add: elapsed_run_def)
  have r: "ready_at elapsed_run 1 \<and> streak elapsed_run 0 1
    \<and> utcnow (elapsed_run ! 0) + IDLE_CONFIRMATION < utcnow (elapsed_run ! 1)"
    by (simp add: elapsed_run_def ready_at_def streak_def verdict_def wait_def
      cycle_def empty_world_evaluate init_def IDLE_CONFIRMATION_def utcnow_world_of)
  then have "\<exists>j<1. streak elapsed_run j 1
       \<and> utcnow (elapsed_run ! j) + IDLE_CONFIRMATION < utcnow (elapsed_run ! 1)" by blast
  with returns_iff_ready_streak [OF h] h r show ?thesis by blast
qed


subsection \<open>An empty cluster\<close>

lemma cycle_empty:
  assumes "polled w = Some st" and "status_services st = []"
  shows "cycle w v =
     (case ready_since v of
        None \<Rightarrow>
          Polling (v\<lparr>trace := trace v @ [status_cmd], ready := True, logs := [],
                     ready_since := Some (utcnow w), prev_logs := []\<rparr>)
      | Some t \<Rightarrow>
          if t + IDLE_CONFIRMATION < utcnow w
          then Returned (v\<lparr>trace := trace v @ [status_cmd], ready := True, logs := []\<rparr>) {}
          else Polling (v\<lparr>trace := trace v @ [status_cmd], ready := True, logs := [],
                          prev_logs := []\<rparr>))"
  by (simp add: cycle_def evaluate_empty [OF assms] split: option.splits)

lemma wait_loop_empty:
  assumes "\<forall>w\<in>set xs. \<exists>st. polled w = Some st \<and> status_services st = []"
    and "ready_since v = Some t"
  shows "if \<exists>w\<in>set xs. t + IDLE_CONFIRMATION < utcnow w
         then \<exists>v'. wait_loop xs v = Returned v' {} \<and> ready_since v' = Some t
         else \<exists>v'. wait_loop xs v = Polling v' \<and> ready_since v' = Some t"
  using assms
proof (induction xs arbitrary: v)
  case Nil
  then show ?case by simp
next
  case (Cons w xs)
  from Cons.prems(1) obtain st where st: "polled w = Some st" "status_services st = []" by auto
  from Cons.prems(1) have rest: "\<forall>w\<in>set xs. \<exists>st. polled w = Some st \<and> status_services st = []"
    by simp
  show ?case
  proof (cases "t + IDLE_CONFIRMATION < utcnow w")
    case True
    with cycle_empty [OF st, of v] Cons.prems(2) show ?thesis by simp
  next
    case False
    let ?v = "v\<lparr>trace := trace v @ [status_cmd], ready := True, logs := [], prev_logs := []\<rparr>"
    from False cycle_empty [OF st, of v] Cons.prems(2) have c: "cycle w v = Polling ?v" by simp
    have "ready_since ?v = Some t" using Cons.prems(2) by simp
    from Cons.IH [OF rest this] c False show ?thesis by simp
  qed
qed

text \<open>
  C8. When every poll returns a status without services (the key is missing or its
  mapping is empty), the verdict of every cycle is ready; \<^verbatim>\<open>wait\<close> returns, with the
  time of the first poll as the start of the streak and no unit to report, as soon as
  a later poll finds the clock more than 15 seconds past the first one, and it is
  still polling as long as no poll does.
\<close>

theorem empty_cluster_is_steady:
  assumes "\<forall>w\<in>set ws. \<exists>st. polled w = Some st \<and> status_services st = []"
    and "ws \<noteq> []"
  shows "(\<forall>w\<in>set ws. \<forall>v. verdict w v = Some True)
    \<and> ((\<exists>k<length ws. 0 < k \<and> utcnow (ws ! 0) + IDLE_CONFIRMATION < utcnow (ws ! k))
         \<longrightarrow> (\<exists>v. wait ws = Returned v {} \<and> ready_since v = Some (utcnow (ws ! 0))))
    \<and> ((\<forall>k<length ws. 0 < k \<longrightarrow> utcnow (ws ! k) \<le> utcnow (ws ! 0) + IDLE_CONFIRMATION)
         \<longrightarrow> (\<exists>v. wait ws = Polling v \<and> ready_since v = Some (utcnow (ws ! 0))))"
proof -
  have verdicts: "\<forall>w\<in>set ws. \<forall>v. verdict w v = Some True"
  proof (intro ballI allI)
    fix w v
    assume "w \<in> set ws"
    with assms(1) obtain st where "polled w = Some st" "status_services st = []" by auto
    from evaluate_empty [OF this] show "verdict w v = Some True" by (simp add: verdict_def)
  qed
  from assms(2) obtain w xs where ws: "ws = w # xs" by (cases ws) auto
  with assms(1) obtain st where st: "polled w = Some st" "status_services st = []" by auto
  from ws assms(1) have rest: "\<forall>w\<in>set xs. \<exists>st. polled w = Some st \<and> status_services st = []"
    by simp
  let ?v = "init\<lparr>trace := trace init @ [status_cmd], ready := True, logs := [],
                 ready_since := Some (utcnow w), prev_logs := []\<rparr>"
  have c: "cycle w init = Polling ?v"
    using cycle_empty [OF st, of init] by (simp add: init_def)
  have rs: "ready_since ?v = Some (utcnow w)" by simp
  have w: "wait ws = wait_loop xs ?v" by (simp add: wait_def ws c)
  have late: "(\<exists>k<length ws. 0 < k \<and> utcnow (ws ! 0) + IDLE_CONFIRMATION < utcnow (ws ! k))
      \<longleftrightarrow> (\<exists>w'\<in>set xs. utcnow w + IDLE_CONFIRMATION < utcnow w')"
  proof
    assume "\<exists>k<length ws. 0 < k \<and> utcnow (ws ! 0) + IDLE_CONFIRMATION < utcnow (ws ! k)"
    then obtain k where k: "k < length ws" "0 < k" "utcnow (ws ! 0) + IDLE_CONFIRMATION < utcnow (ws ! k)"
      by blast
    then obtain i where i: "k = Suc i" by (cases k) auto
    with k ws have "i < length xs" "utcnow w + IDLE_CONFIRMATION < utcnow (xs ! i)" by simp_all
    then show "\<exists>w'\<in>set xs. utcnow w + IDLE_CONFIRMATION < utcnow w'" using nth_mem by blast
  next
    assume "\<exists>w'\<in>set xs. utcnow w + IDLE_CONFIRMATION < utcnow w'"
    then obtain i where "i < length xs" "utcnow w + IDLE_CONFIRMATION < utcnow (xs ! i)"
      by (auto simp: in_set_conv_nth)
    then have "Suc i < length ws \<and> 0 < Suc i \<and> utcnow (ws ! 0) + IDLE_CONFIRMATION < utcnow (ws ! Suc i)"
      by (simp add: ws)
    then show "\<exists>k<length ws. 0 < k \<and> utcnow (ws ! 0) + IDLE_CONFIRMATION < utcnow (ws ! k)" by blast
  qed
  have early: "(\<forall>k<length ws. 0 < k \<longrightarrow> utcnow (ws ! k) \<le> utcnow (ws ! 0) + IDLE_CONFIRMATION)
      \<longleftrightarrow> \<not> (\<exists>w'\<in>set xs. utcnow w + IDLE_CONFIRMATION < utcnow w')"
    using late by (auto simp: not_less)
  have w0: "ws ! 0 = w" by (simp add: ws)
  from wait_loop_empty [OF rest rs] w late early verdicts w0 show ?thesis
    by (auto split: if_splits)
qed

theorem empty_cluster_is_steady_witness:
  "polled (elapsed_run ! 0) = Some empty_status \<and> polled (elapsed_run ! 1) = Some empty_status
   \<and> polled (boundary_run ! 0) = Some empty_status \<and> polled (boundary_run ! 1) = Some empty_status
   \<and> status_services empty_status = []
   \<and> length elapsed_run = 2 \<and> length boundary_run = 2
   \<and> utcnow (elapsed_run ! 0) + IDLE_CONFIRMATION < utcnow (elapsed_run ! 1)
   \<and> utcnow (boundary_run ! 1) \<le> utcnow (boundary_run ! 0) + IDLE_CONFIRMATION
   \<and> verdict (elapsed_run ! 0) init = Some True \<and> verdict (elapsed_run ! 1) init = Some True
   \<and> (\<exists>v. wait elapsed_run = Returned v {} \<and> ready_since v = Some 0)
   \<and> (\<exists>v. wait boundary_run = Polling v \<and> ready_since v = Some 0)"
proof -
  have p: "polled (world_of empty_status no_cmd t) = Some empty_status" for t
    by (simp add: polled_def sample_defs helper_defs)
  have e: "status_services empty_status = []"
    by (simp add: empty_status_def status_services_def)
  have h1: "\<forall>w\<in>set elapsed_run. \<exists>st. polled w = Some st \<and> status_services st = []"
    and h1': "\<forall>w\<in>set boundary_run. \<exists>st. polled w = Some st \<and> status_services st = []"
    using p e by (simp_all add: elapsed_run_def boundary_run_def)
  have h2: "elapsed_run \<noteq> []" and h2': "boundary_run \<noteq> []"
    by (simp_all add: elapsed_run_def boundary_run_def)
  have h3: "\<exists>k<length elapsed_run. 0 < k
        \<and> utcnow (elapsed_run ! 0) + IDLE_CONFIRMATION < utcnow (elapsed_run ! k)"
    by (rule exI [where x = 1])
      (simp add: elapsed_run_def utcnow_world_of IDLE_CONFIRMATION_def)
  have h4: "\<forall>k<length boundary_run. 0 < k
        \<longrightarrow> utcnow (boundary_run ! k) \<le> utcnow (boundary_run ! 0) + IDLE_CONFIRMATION"
    by (simp add: boundary_run_def utcnow_world_of IDLE_CONFIRMATION_def less_Suc_eq)
  have t0: "utcnow (elapsed_run ! 0) = 0" "utcnow (boundary_run ! 0) = 0"
    by (simp_all add: elapsed_run_def boundary_run_def utcnow_world_of)
  have c: "polled (elapsed_run ! 0) = Some empty_status \<and> polled (elapsed_run ! 1) = Some empty_status
   \<and> polled (boundary_run ! 0) = Some empty_status \<and> polled (boundary_run ! 1) = Some empty_status
   \<and> length elapsed_run = 2 \<and> length boundary_run = 2
   \<and> utcnow (elapsed_run ! 0) + IDLE_CONFIRMATION < utcnow (elapsed_run ! 1)
   \<and> utcnow (boundary_run ! 1) \<le> utcnow (boundary_run ! 0) + IDLE_CONFIRMATION"
    using p by (simp add: elapsed_run_def boundary_run_def utcnow_world_of IDLE_CONFIRMATION_def)
  have m: "elapsed_run ! 0 \<in> set elapsed_run" "elapsed_run ! 1 \<in> set elapsed_run"
    by (simp_all add: elapsed_run_def)
  from empty_cluster_is_steady [OF h1 h2] empty_cluster_is_steady [OF h1' h2'] h3 h4 t0 c e m
  show ?thesis by simp
qed


subsection \<open>Units that report an agent status\<close>











subsection \<open>A unit without agent status in the error state\<close>









subsection \<open>The log cache across cycles\<close>

lemma legacy_unit_trace:
  assumes "legacy_unit w n x v = Inr v1"
  obtains (quiet) "trace v1 = trace v" "prev_logs v1 = prev_logs v"
  | (sniffed) line where "fetched w n = Some line"
      "trace v1 = trace v @ (if logging_reset v then [] else [reset_cmd]) @ [log_tail_cmd n]"
      "ready v1 = (ready v \<and> map_of (prev_logs v) n = Some line)" "prev_logs v1 = prev_logs v"
proof (cases rule: legacy_unit_cases [of x w n v])
  case sniff
  with assms have "sniff w n v = Inr v1" by simp
  from sniff_Inr [OF this] obtain line where "fetched w n = Some line"
    "v1 = v\<lparr>logging_reset := True,
             trace := trace v @ (if logging_reset v then [] else [reset_cmd]) @ [log_tail_cmd n],
             logs := AList.update n line (logs v),
             ready := (ready v \<and> map_of (prev_logs v) n = Some line)\<rparr>" by blast
  then show ?thesis using sniffed [of line] by simp
qed (use assms quiet in auto)

lemma legacy_loop_sniffed_active:
  "legacy_loop w xs v = Inr v' \<Longrightarrow> trace v' = trace v @ X \<Longrightarrow> log_tail_cmd u \<in> set X
     \<Longrightarrow> map_of (prev_logs v) u \<noteq> fetched w u \<or> map_of (prev_logs v) u = None
     \<Longrightarrow> \<not> ready v'"
proof (induction xs arbitrary: v X)
  case Nil
  then show ?case by simp
next
  case (Cons y xs)
  obtain n x where y: "y = (n, x)" by (cases y)
  from Cons.prems(1) y obtain v1 where
    s: "legacy_unit w n x v = Inr v1" and r: "legacy_loop w xs v1 = Inr v'"
    by (auto split: sum.splits)
  from legacy_loop_logs_step [OF r] obtain X2 where X2: "trace v' = trace v1 @ X2"
    by (auto simp: logs_step_def)
  from s show ?case
  proof (cases rule: legacy_unit_trace)
    case quiet
    with X2 Cons.prems(2) have "trace v' = trace v1 @ X" by simp
    from Cons.IH [OF r this Cons.prems(3)] Cons.prems(4) quiet show ?thesis by simp
  next
    case (sniffed line)
    let ?X1 = "(if logging_reset v then [] else [reset_cmd]) @ [log_tail_cmd n]"
    from sniffed(2) X2 Cons.prems(2) have X: "X = ?X1 @ X2" by simp
    show ?thesis
    proof (cases "log_tail_cmd u \<in> set X2")
      case True
      from Cons.IH [OF r X2 True] Cons.prems(4) sniffed(4) show ?thesis by simp
    next
      case False
      with X Cons.prems(3) have "log_tail_cmd u \<in> set ?X1" by simp
      then have "u = n" by (auto simp: log_tail_cmd_inj cmds_distinct split: if_splits)
      with Cons.prems(4) sniffed(1,3) have "\<not> ready v1" by auto
      with r show ?thesis by (rule legacy_loop_not_ready)
    qed
  qed
qed

lemma evaluate_trace_logs:
  assumes "evaluate w v = Inr (v', c)"
  shows "\<exists>X. trace v' = trace v @ X
    \<and> (\<forall>u. map_of (logs v') u = (if log_tail_cmd u \<in> set X then fetched w u else None))
    \<and> (\<forall>u. log_tail_cmd u \<in> set X
           \<and> (map_of (prev_logs v) u \<noteq> fetched w u \<or> map_of (prev_logs v) u = None)
           \<longrightarrow> \<not> ready v')"
proof -
  from assms obtain st r v1 where
    l: "legacy_loop w (sort_key fst (ready_units c))
           (v\<lparr>trace := trace v @ [status_cmd], ready := r, logs := []\<rparr>) = Inr v1"
    and cl: "check_leaders w c v1 = Inr v'"
    by (rule evaluate_InrE)
  let ?v0 = "v\<lparr>trace := trace v @ [status_cmd], ready := r, logs := []\<rparr>"
  from legacy_loop_logs_step [OF l, unfolded logs_step_def] obtain X1 where
    "trace v1 = trace ?v0 @ X1 \<and> set X1 \<subseteq> insert reset_cmd (range log_tail_cmd)
      \<and> (\<forall>u. map_of (logs v1) u = (if log_tail_cmd u \<in> set X1 then fetched w u else map_of (logs ?v0) u))
      \<and> prev_logs v1 = prev_logs ?v0 \<and> ready_since v1 = ready_since ?v0" ..
  then have X1: "trace v1 = trace v @ [status_cmd] @ X1"
    "\<And>u. map_of (logs v1) u = (if log_tail_cmd u \<in> set X1 then fetched w u else None)"
    by simp_all
  from cl obtain X2 b where v': "v' = v1\<lparr>ready := b, trace := trace v1 @ X2\<rparr>"
    and b: "b \<longrightarrow> ready v1" and X2: "set X2 \<subseteq> range is_leader_cmd"
    by (rule check_leaders_Inr)
  have mem: "log_tail_cmd u \<in> set ([status_cmd] @ X1 @ X2) \<longleftrightarrow> log_tail_cmd u \<in> set X1" for u
    using X2 by (auto simp: cmds_distinct)
  have 1: "trace v' = trace v @ [status_cmd] @ X1 @ X2" using v' X1(1) by simp
  have 2: "map_of (logs v') u = (if log_tail_cmd u \<in> set ([status_cmd] @ X1 @ X2) then fetched w u else None)" for u
    using v' X1(2) [of u] mem [of u] by simp
  have 3: "\<not> ready v'" if "log_tail_cmd u \<in> set ([status_cmd] @ X1 @ X2)"
      and "map_of (prev_logs v) u \<noteq> fetched w u \<or> map_of (prev_logs v) u = None" for u
  proof -
    from that(1) mem have m: "log_tail_cmd u \<in> set X1" by simp
    have t: "trace v1 = trace ?v0 @ X1" using X1(1) by simp
    from legacy_loop_sniffed_active [OF l t m] that(2) have "\<not> ready v1" by simp
    with b v' show ?thesis by simp
  qed
  show ?thesis
    apply (rule exI [where x = "[status_cmd] @ X1 @ X2"])
    using 1 2 3 apply blast
    done
qed

lemma cycle_cmds_evaluate:
  assumes "evaluate w v = Inr (v', c)" and "trace v' = trace v @ X"
  shows "cycle_cmds w v = X"
proof -
  have "trace_of (cycle w v) = trace v'"
    using assms(1) by (simp add: cycle_def split: option.splits)
  with assms(2) show ?thesis by (simp add: cycle_cmds_def)
qed

lemma cycle_Polling_evaluate:
  assumes "cycle w v = Polling v'"
  obtains v1 c where "evaluate w v = Inr (v1, c)" and "prev_logs v' = logs v1"
    and "ready v1 \<longrightarrow> ready_since v' \<noteq> None"
  using assms by (auto simp: cycle_def split: sum.splits prod.splits if_splits option.splits)

lemma cache_after_cycle:
  assumes "cycle w v = Polling v'"
  shows "map_of (prev_logs v') u = (if log_tail_cmd u \<in> set (cycle_cmds w v) then fetched w u else None)"
proof -
  from assms obtain v1 c where e: "evaluate w v = Inr (v1, c)" and p: "prev_logs v' = logs v1"
    by (rule cycle_Polling_evaluate)
  from evaluate_trace_logs [OF e] obtain X where
    "trace v1 = trace v @ X
    \<and> (\<forall>u. map_of (logs v1) u = (if log_tail_cmd u \<in> set X then fetched w u else None))
    \<and> (\<forall>u. log_tail_cmd u \<in> set X
           \<and> (map_of (prev_logs v) u \<noteq> fetched w u \<or> map_of (prev_logs v) u = None)
           \<longrightarrow> \<not> ready v1)" (is "?A \<and> ?B \<and> ?C") ..
  then have "?A" and "?B" and "?C" by blast+
  then have X: "trace v1 = trace v @ X"
    "\<And>u. map_of (logs v1) u = (if log_tail_cmd u \<in> set X then fetched w u else None)"
    "\<And>u. log_tail_cmd u \<in> set X
           \<Longrightarrow> map_of (prev_logs v) u \<noteq> fetched w u \<or> map_of (prev_logs v) u = None
           \<Longrightarrow> \<not> ready v1"
    by blast+
  from cycle_cmds_evaluate [OF e X(1)] X(2) [of u] p show ?thesis by simp
qed

lemma sniffed_active_not_ready:
  assumes "log_tail_cmd u \<in> set (cycle_cmds w v)"
    and "map_of (prev_logs v) u \<noteq> fetched w u \<or> map_of (prev_logs v) u = None"
  shows "verdict w v \<noteq> Some True"
proof
  assume "verdict w v = Some True"
  then obtain v1 c where e: "evaluate w v = Inr (v1, c)" and r: "ready v1"
    by (auto simp: verdict_def split: sum.splits prod.splits)
  from evaluate_trace_logs [OF e] obtain X where
    "trace v1 = trace v @ X
    \<and> (\<forall>u. map_of (logs v1) u = (if log_tail_cmd u \<in> set X then fetched w u else None))
    \<and> (\<forall>u. log_tail_cmd u \<in> set X
           \<and> (map_of (prev_logs v) u \<noteq> fetched w u \<or> map_of (prev_logs v) u = None)
           \<longrightarrow> \<not> ready v1)" (is "?A \<and> ?B \<and> ?C") ..
  then have "?A" and "?B" and "?C" by blast+
  then have X: "trace v1 = trace v @ X"
    "\<And>u. map_of (logs v1) u = (if log_tail_cmd u \<in> set X then fetched w u else None)"
    "\<And>u. log_tail_cmd u \<in> set X
           \<Longrightarrow> map_of (prev_logs v) u \<noteq> fetched w u \<or> map_of (prev_logs v) u = None
           \<Longrightarrow> \<not> ready v1"
    by blast+
  from cycle_cmds_evaluate [OF e X(1)] assms(1) have "log_tail_cmd u \<in> set X" by simp
  from X(3) [OF this assms(2)] r show False by simp
qed

text \<open>
  C5. A unit without agent status that reaches the sniffing (it is not dying, its
  agent state is \<^verbatim>\<open>started\<close>, the running verdict is still ready) and whose log tail
  is fetched keeps the verdict ready exactly when the fetched line is the line cached
  for it by the previous cycle; a different line, or no cached line, makes the cycle
  not ready. In both cases the fetched line is stored for the unit. After a cycle the
  cache holds, for each unit, the line fetched in this cycle if its log was fetched in
  this cycle, and nothing otherwise.
\<close>

theorem log_sniffing_compares_with_cache:
  "(\<not> dying (u_life unit) \<and> u_agent_state unit = Some ''started'' \<and> ready v
      \<and> (logging_reset v \<or> succeeds w reset_cmd) \<and> fetched w uname = Some line
     \<longrightarrow> (\<exists>v1. legacy_unit w uname unit v = Inr v1
            \<and> ready v1 = (map_of (prev_logs v) uname = Some line)
            \<and> map_of (logs v1) uname = Some line))
   \<and> (log_tail_cmd u \<in> set (cycle_cmds w v) \<and> map_of (prev_logs v) u \<noteq> fetched w u
       \<longrightarrow> verdict w v \<noteq> Some True)
   \<and> (cycle w v = Polling v'
       \<longrightarrow> (\<forall>u. map_of (prev_logs v') u
                 = (if log_tail_cmd u \<in> set (cycle_cmds w v) then fetched w u else None)))"
proof (intro conjI impI allI)
  assume a: "\<not> dying (u_life unit) \<and> u_agent_state unit = Some ''started'' \<and> ready v
      \<and> (logging_reset v \<or> succeeds w reset_cmd) \<and> fetched w uname = Some line"
  then have "legacy_unit w uname unit v = sniff w uname v" by (simp add: legacy_unit_def)
  with a sniff_succeeds [of v w uname line]
  show "\<exists>v1. legacy_unit w uname unit v = Inr v1
            \<and> ready v1 = (map_of (prev_logs v) uname = Some line)
            \<and> map_of (logs v1) uname = Some line"
    by (simp add: update_conv')
next
  assume "log_tail_cmd u \<in> set (cycle_cmds w v) \<and> map_of (prev_logs v) u \<noteq> fetched w u"
  then show "verdict w v \<noteq> Some True" using sniffed_active_not_ready [of u w v] by blast
next
  fix u
  assume "cycle w v = Polling v'"
  then show "map_of (prev_logs v') u = (if log_tail_cmd u \<in> set (cycle_cmds w v) then fetched w u else None)"
    by (rule cache_after_cycle)
qed

text \<open>
  C10. Once the running verdict is lost, the rest of the loop over the units without
  agent status runs no command and stores no line: it ends in the very state in which
  the verdict was lost, or raises for a unit in the error state. A unit whose log was
  not fetched in a cycle has no line in the cache after it, and the next cycle, if it
  fetches the log of that unit, is not ready.
\<close>

theorem unsniffed_unit_is_active_next:
  "(legacy_loop w pre v = Inr v1 \<and> \<not> ready v1
     \<longrightarrow> legacy_loop w (pre @ (uname, unit) # post) v = Inr v1
         \<or> legacy_loop w (pre @ (uname, unit) # post) v = Inl (JujuWaitException 1, trace v1))
   \<and> (cycle w v = Polling v' \<and> log_tail_cmd u \<notin> set (cycle_cmds w v)
       \<longrightarrow> map_of (prev_logs v') u = None)
   \<and> (cycle w v = Polling v' \<and> log_tail_cmd u \<notin> set (cycle_cmds w v)
         \<and> log_tail_cmd u \<in> set (cycle_cmds w' v')
       \<longrightarrow> verdict w' v' \<noteq> Some True)"
proof (intro conjI impI)
  assume a: "legacy_loop w pre v = Inr v1 \<and> \<not> ready v1"
  show "legacy_loop w (pre @ (uname, unit) # post) v = Inr v1
         \<or> legacy_loop w (pre @ (uname, unit) # post) v = Inl (JujuWaitException 1, trace v1)"
  proof (cases "legacy_loop w ((uname, unit) # post) v1")
    case (Inl y)
    obtain e tr where y: "y = (e, tr)" by (cases y)
    from a Inl y legacy_loop_idle_Inl [of v1 w "(uname, unit) # post" e tr]
    have "e = JujuWaitException 1 \<and> tr = trace v1" by simp
    with a Inl y show ?thesis by (simp add: legacy_loop_append)
  next
    case (Inr v2)
    from a Inr legacy_loop_idle_Inr [of v1 w "(uname, unit) # post" v2] have "v2 = v1" by simp
    with a Inr show ?thesis by (simp add: legacy_loop_append)
  qed
next
  assume "cycle w v = Polling v' \<and> log_tail_cmd u \<notin> set (cycle_cmds w v)"
  then show "map_of (prev_logs v') u = None" using cache_after_cycle [of w v v' u] by simp
next
  assume a: "cycle w v = Polling v' \<and> log_tail_cmd u \<notin> set (cycle_cmds w v)
         \<and> log_tail_cmd u \<in> set (cycle_cmds w' v')"
  then have "map_of (prev_logs v') u = None" using cache_after_cycle [of w v v' u] by simp
  with a show "verdict w' v' \<noteq> Some True" using sniffed_active_not_ready [of u w' v'] by blast
qed

theorem log_sniffing_compares_with_cache_witness:
  "\<not> dying (u_life (legacy_info None ''started'' ''1.22.0''))
   \<and> u_agent_state (legacy_info None ''started'' ''1.22.0'') = Some ''started''
   \<and> ready init \<and> succeeds (world_of status_started ok_cmd 0) reset_cmd
   \<and> fetched (world_of status_started ok_cmd 0) ''a/1'' = Some ''true''
   \<and> (\<exists>v1. legacy_unit (world_of status_started ok_cmd 0) ''a/1''
              (legacy_info None ''started'' ''1.22.0'') init = Inr v1
          \<and> \<not> ready v1 \<and> map_of (logs v1) ''a/1'' = Some ''true'')
   \<and> (\<exists>v1. legacy_unit (world_of status_started ok_cmd 0) ''a/1''
              (legacy_info None ''started'' ''1.22.0'') (init\<lparr>prev_logs := [(''a/1'', ''true'')]\<rparr>) = Inr v1
          \<and> ready v1 \<and> map_of (logs v1) ''a/1'' = Some ''true'')
   \<and> log_tail_cmd ''a/1'' \<in> set (cycle_cmds (world_of status_started ok_cmd 0) init)
   \<and> verdict (world_of status_started ok_cmd 0) init = Some False
   \<and> (\<exists>v'. cycle (world_of status_started ok_cmd 0) init = Polling v'
          \<and> map_of (prev_logs v') ''a/1'' = Some ''true'' \<and> map_of (prev_logs v') ''a/0'' = None)"
proof -
  let ?w = "world_of status_started ok_cmd 0"
  let ?u = "legacy_info None ''started'' ''1.22.0''"
  let ?v = "init\<lparr>prev_logs := [(''a/1'', ''true'')]\<rparr>"
  have h1: "\<not> dying (u_life ?u)" and h2: "u_agent_state ?u = Some ''started''"
    by (simp_all add: legacy_info_def dying_def)
  have h3: "ready init" "ready ?v" by (simp_all add: init_def)
  have h4: "succeeds ?w reset_cmd" by (simp add: succeeds_def sample_defs helper_defs)
  have h5: "fetched ?w ''a/1'' = Some ''true''" and h5': "fetched ?w ''a/0'' = Some ''true''"
    by (simp_all add: fetched_def sample_defs helper_defs)
  have p: "map_of (prev_logs init) ''a/1'' = None" "map_of (prev_logs ?v) ''a/1'' = Some ''true''"
    by (simp_all add: init_def)
  have c: "cycle_cmds ?w init = [status_cmd, reset_cmd, log_tail_cmd ''a/1'']"
    by (simp add: cycle_cmds_def status_started_def sample_defs helper_defs loop_defs)
  have tail: "log_tail_cmd ''a/0'' \<notin> set (cycle_cmds ?w init)"
    "log_tail_cmd ''a/1'' \<in> set (cycle_cmds ?w init)"
    by (simp_all add: c log_tail_cmd_inj cmds_distinct)
  have v: "verdict ?w init = Some False \<or> verdict ?w init = Some True"
    by (simp add: verdict_def status_started_def sample_defs helper_defs loop_defs)
  have "\<exists>v'. cycle ?w init = Polling v'"
    by (simp add: status_started_def sample_defs helper_defs loop_defs)
  then obtain v' where k: "cycle ?w init = Polling v'" ..
  from log_sniffing_compares_with_cache [where w = ?w and unit = ?u and uname = "''a/1''"
      and v = init and line = "''true''" and u = "''a/1''" and v' = v']
    h1 h2 h3 h4 h5 p tail v k
  have a: "(\<exists>v1. legacy_unit ?w ''a/1'' ?u init = Inr v1 \<and> \<not> ready v1 \<and> map_of (logs v1) ''a/1'' = Some ''true'')"
    and b: "verdict ?w init = Some False"
    and d: "map_of (prev_logs v') ''a/1'' = Some ''true'' \<and> map_of (prev_logs v') ''a/0'' = None"
    by auto
  from log_sniffing_compares_with_cache [where w = ?w and unit = ?u and uname = "''a/1''"
      and v = ?v and line = "''true''"]
    h1 h2 h3 h4 h5 p
  have e: "(\<exists>v1. legacy_unit ?w ''a/1'' ?u ?v = Inr v1 \<and> ready v1 \<and> map_of (logs v1) ''a/1'' = Some ''true'')"
    by auto
  from a b d e h1 h2 h3 h4 h5 tail k show ?thesis by blast
qed

theorem unsniffed_unit_is_active_next_witness:
  "legacy_loop (world_of status_pending_started ok_cmd 0)
      [(''a/0'', legacy_info None ''pending'' ''1.22.0'')] init = Inr (init\<lparr>ready := False\<rparr>)
   \<and> \<not> ready (init\<lparr>ready := False\<rparr>)
   \<and> legacy_loop (world_of status_pending_started ok_cmd 0)
        ([(''a/0'', legacy_info None ''pending'' ''1.22.0'')]
          @ (''a/1'', legacy_info None ''started'' ''1.22.0'') # []) init = Inr (init\<lparr>ready := False\<rparr>)
   \<and> cycle (world_of status_pending_started ok_cmd 0) init = Polling after_pending
   \<and> log_tail_cmd ''a/1'' \<notin> set (cycle_cmds (world_of status_pending_started ok_cmd 0) init)
   \<and> map_of (prev_logs after_pending) ''a/1'' = None
   \<and> log_tail_cmd ''a/1'' \<in> set (cycle_cmds (world_of status_started ok_cmd 4000000) after_pending)
   \<and> verdict (world_of status_started ok_cmd 4000000) after_pending = Some False"
proof -
  let ?w = "world_of status_pending_started ok_cmd 0"
  let ?w' = "world_of status_started ok_cmd 4000000"
  let ?p = "legacy_info None ''pending'' ''1.22.0''"
  let ?s = "legacy_info None ''started'' ''1.22.0''"
  let ?v1 = "init\<lparr>ready := False\<rparr>"
  have h1: "legacy_loop ?w [(''a/0'', ?p)] init = Inr ?v1"
    by (simp add: sample_defs loop_defs)
  have h2: "\<not> ready ?v1" by simp
  have n: "legacy_loop ?w ([(''a/0'', ?p)] @ (''a/1'', ?s) # []) init \<noteq> Inl (JujuWaitException 1, trace ?v1)"
    by (simp add: sample_defs loop_defs)
  have h3: "cycle ?w init = Polling after_pending"
    by (simp add: after_pending_def status_pending_started_def sample_defs helper_defs loop_defs)
  have c: "cycle_cmds ?w init = [status_cmd]"
    unfolding cycle_cmds_def h3 by (simp add: after_pending_def init_def)
  have h4: "log_tail_cmd ''a/1'' \<notin> set (cycle_cmds ?w init)"
    by (simp add: c cmds_distinct)
  have c': "cycle_cmds ?w' after_pending = [status_cmd, reset_cmd, log_tail_cmd ''a/1'']"
    by (simp add: cycle_cmds_def after_pending_def status_started_def sample_defs helper_defs loop_defs)
  have h5: "log_tail_cmd ''a/1'' \<in> set (cycle_cmds ?w' after_pending)"
    by (simp add: c')
  have v: "verdict ?w' after_pending = Some False \<or> verdict ?w' after_pending = Some True"
    by (simp add: verdict_def after_pending_def status_started_def sample_defs helper_defs loop_defs)
  from unsniffed_unit_is_active_next [where w = ?w and pre = "[(''a/0'', ?p)]" and v = init
      and ?v1.0 = ?v1 and uname = "''a/1''" and unit = ?s and post = "[]" and v' = after_pending
      and u = "''a/1''" and w' = ?w']
    h1 h2 n h3 h4 h5 v
  show ?thesis by simp
qed


subsection \<open>The logging reset in the trace\<close>

lemma unsniffed_Nil: "unsniffed []"
  by (simp add: unsniffed_def)

lemma unsniffed_append: "unsniffed A \<Longrightarrow> unsniffed X \<Longrightarrow> unsniffed (A @ X)"
  by (simp add: unsniffed_def)

lemma unsniffed_status: "unsniffed [status_cmd]"
  by (simp add: unsniffed_def cmds_distinct)

lemma unsniffed_leaders: "set X \<subseteq> range is_leader_cmd \<Longrightarrow> unsniffed X"
  by (auto simp: unsniffed_def cmds_distinct)

lemma reset_once_append:
  assumes "reset_once tr" and "reset_cmd \<notin> set X"
  shows "reset_once (tr @ X)"
proof -
  from assms(1) obtain A B u where "tr = A @ reset_cmd # log_tail_cmd u # B" "unsniffed A"
    "reset_cmd \<notin> set B" unfolding reset_once_def by blast
  with assms(2) have "tr @ X = A @ reset_cmd # log_tail_cmd u # (B @ X) \<and> unsniffed A
      \<and> reset_cmd \<notin> set (B @ X)" by simp
  then show ?thesis unfolding reset_once_def by blast
qed

lemma reset_once_start: "unsniffed tr \<Longrightarrow> reset_once (tr @ [reset_cmd, log_tail_cmd u])"
  unfolding reset_once_def by (rule exI [where x = tr], rule exI [where x = "[]"]) auto

lemma reset_inv_append:
  assumes "reset_inv v" and "unsniffed X" and "logging_reset v' = logging_reset v"
    and "trace v' = trace v @ X"
  shows "reset_inv v'"
proof (cases "logging_reset v")
  case True
  with assms(1) have "reset_once (trace v)" by (simp add: reset_inv_def)
  from reset_once_append [OF this, of X] assms(2) have "reset_once (trace v @ X)"
    by (simp add: unsniffed_def)
  with True assms(3,4) show ?thesis by (simp add: reset_inv_def)
next
  case False
  with assms(1) have "unsniffed (trace v)" by (simp add: reset_inv_def)
  from unsniffed_append [OF this assms(2)] False assms(3,4) show ?thesis
    by (simp add: reset_inv_def)
qed

lemma reset_inv_Raised:
  assumes "reset_inv v" and "unsniffed X"
  shows "reset_ok (Raised e (trace v @ X))"
proof (cases "logging_reset v")
  case True
  with assms(1) have "reset_once (trace v)" by (simp add: reset_inv_def)
  from reset_once_append [OF this, of X] assms(2) show ?thesis by (simp add: unsniffed_def)
next
  case False
  with assms(1) have "unsniffed (trace v)" by (simp add: reset_inv_def)
  from unsniffed_append [OF this assms(2)] show ?thesis by simp
qed

lemma sniff_reset_inv:
  assumes "reset_inv v" and "sniff w u v = Inr v'"
  shows "reset_inv v'"
proof -
  from sniff_Inr [OF assms(2)] obtain line where
    v': "v' = v\<lparr>logging_reset := True,
                    trace := trace v @ (if logging_reset v then [] else [reset_cmd]) @ [log_tail_cmd u],
                    logs := AList.update u line (logs v),
                    ready := (ready v \<and> map_of (prev_logs v) u = Some line)\<rparr>"
    by blast
  show ?thesis
  proof (cases "logging_reset v")
    case True
    with assms(1) have "reset_once (trace v)" by (simp add: reset_inv_def)
    from reset_once_append [OF this, of "[log_tail_cmd u]"] have "reset_once (trace v @ [log_tail_cmd u])"
      by (simp add: cmds_distinct)
    with True v' show ?thesis by (simp add: reset_inv_def)
  next
    case False
    with assms(1) have "unsniffed (trace v)" by (simp add: reset_inv_def)
    from reset_once_start [OF this, of u] False v' show ?thesis by (simp add: reset_inv_def)
  qed
qed

lemma sniff_reset_ok:
  assumes "reset_inv v" and "sniff w u v = Inl (e, tr)"
  shows "reset_ok (Raised e tr)"
proof (cases "logging_reset v")
  case True
  with assms(1) have r: "reset_once (trace v)" by (simp add: reset_inv_def)
  from sniff_Inl [OF assms(2)] True have "tr = trace v @ [log_tail_cmd u]" by auto
  with reset_once_append [OF r, of "[log_tail_cmd u]"] show ?thesis by (simp add: cmds_distinct)
next
  case False
  with assms(1) have u: "unsniffed (trace v)" by (simp add: reset_inv_def)
  from sniff_Inl [OF assms(2)] False obtain n where e: "e = JujuWaitException n"
    and tr: "tr = trace v @ [reset_cmd] \<or> tr = trace v @ [reset_cmd, log_tail_cmd u]" by auto
  from tr show ?thesis
  proof
    assume "tr = trace v @ [reset_cmd]"
    with u e show ?thesis by auto
  next
    assume "tr = trace v @ [reset_cmd, log_tail_cmd u]"
    with reset_once_start [OF u, of u] show ?thesis by simp
  qed
qed

lemma legacy_unit_reset_inv:
  assumes "reset_inv v"
  shows "case legacy_unit w n x v of Inl (e, tr) \<Rightarrow> reset_ok (Raised e tr) | Inr v' \<Rightarrow> reset_inv v'"
proof (cases rule: legacy_unit_cases [of x w n v])
  case dying
  with assms show ?thesis by (simp add: reset_inv_def)
next
  case error
  from reset_inv_Raised [OF assms unsniffed_Nil, of "JujuWaitException 1"] error show ?thesis by simp
next
  case pending
  with assms show ?thesis by (simp add: reset_inv_def)
next
  case sniff
  show ?thesis
  proof (cases "sniff w n v")
    case (Inl y)
    obtain e tr where "y = (e, tr)" by (cases y)
    with Inl sniff sniff_reset_ok [OF assms, of w n e tr] show ?thesis by simp
  next
    case (Inr v')
    with sniff sniff_reset_inv [OF assms Inr] show ?thesis by simp
  qed
next
  case skip
  with assms show ?thesis by simp
qed

lemma legacy_loop_reset_inv:
  "reset_inv v \<Longrightarrow>
     (case legacy_loop w xs v of Inl (e, tr) \<Rightarrow> reset_ok (Raised e tr) | Inr v' \<Rightarrow> reset_inv v')"
proof (induction xs arbitrary: v)
  case Nil
  then show ?case by simp
next
  case (Cons y xs)
  obtain n x where y: "y = (n, x)" by (cases y)
  show ?case
  proof (cases "legacy_unit w n x v")
    case (Inl z)
    with legacy_unit_reset_inv [OF Cons.prems, of w n x] y show ?thesis by simp
  next
    case (Inr v1)
    with legacy_unit_reset_inv [OF Cons.prems, of w n x] have "reset_inv v1" by simp
    from Cons.IH [OF this] Inr y show ?thesis by simp
  qed
qed

lemma leads_Inl_grows:
  assumes "leads w uname version tr = Inl (e, tr')"
  shows "tr' = tr \<or> tr' = tr @ [is_leader_cmd uname]"
  using assms
  by (auto simp: leads_def split: option.splits if_splits sum.splits prod.splits bool.splits
      dest!: get_is_leader_Inl)

lemma leader_loop_Inl_grows:
  "leader_loop w xs s0 l0 tr0 = Inl (e, tr')
     \<Longrightarrow> \<exists>X. tr' = tr0 @ X \<and> set X \<subseteq> range is_leader_cmd"
proof (induction xs arbitrary: s0 l0 tr0)
  case Nil
  then show ?case by simp
next
  case (Cons x xs)
  obtain uname version where x: "x = (uname, version)" by (cases x)
  show ?case
  proof (cases "service_of uname \<in> l0")
    case True
    with Cons.prems x have "leader_loop w xs (insert (service_of uname) s0) l0 tr0 = Inl (e, tr')"
      by (simp add: Let_def)
    from Cons.IH [OF this] show ?thesis .
  next
    case False
    show ?thesis
    proof (cases "leads w uname version tr0")
      case (Inl y)
      with Cons.prems x False have "leads w uname version tr0 = Inl (e, tr')"
        by (simp add: Let_def)
      from leads_Inl_grows [OF this] show ?thesis
      proof
        assume "tr' = tr0"
        then have "tr' = tr0 @ [] \<and> set [] \<subseteq> range is_leader_cmd" by simp
        then show ?thesis by blast
      next
        assume "tr' = tr0 @ [is_leader_cmd uname]"
        then have "tr' = tr0 @ [is_leader_cmd uname] \<and> set [is_leader_cmd uname] \<subseteq> range is_leader_cmd"
          by simp
        then show ?thesis by blast
      qed
    next
      case (Inr y)
      obtain b tr1 where y: "y = (b, tr1)" by (cases y)
      with Inr Cons.prems x False obtain l1 where
        r: "leader_loop w xs (insert (service_of uname) s0) l1 tr1 = Inl (e, tr')"
        by (cases b) (auto simp: Let_def)
      from Cons.IH [OF r] obtain X where X: "tr' = tr1 @ X" "set X \<subseteq> range is_leader_cmd" by blast
      from Inr y have "leads w uname version tr0 = Inr (b, tr1)" by simp
      from leads_grows [OF this] show ?thesis
      proof
        assume "tr1 = tr0"
        with X show ?thesis by blast
      next
        assume "tr1 = tr0 @ [is_leader_cmd uname]"
        with X have "tr' = tr0 @ (is_leader_cmd uname # X)"
          "set (is_leader_cmd uname # X) \<subseteq> range is_leader_cmd" by simp_all
        then show ?thesis by blast
      qed
    qed
  qed
qed

lemma check_leaders_reset_inv:
  assumes "reset_inv v"
  shows "case check_leaders w c v of Inl (e, tr) \<Rightarrow> reset_ok (Raised e tr) | Inr v' \<Rightarrow> reset_inv v'"
proof (cases "check_leaders w c v")
  case (Inl y)
  obtain e tr where y: "y = (e, tr)" by (cases y)
  with Inl have "leader_loop w (agent_version c) {} {} (trace v) = Inl (e, tr)"
    by (auto simp: check_leaders_def split: if_splits sum.splits prod.splits)
  from leader_loop_Inl_grows [OF this] obtain X where "tr = trace v @ X" "set X \<subseteq> range is_leader_cmd"
    by blast
  with reset_inv_Raised [OF assms unsniffed_leaders, of X e] Inl y show ?thesis by simp
next
  case (Inr v')
  then obtain X b where "v' = v\<lparr>ready := b, trace := trace v @ X\<rparr>" "b \<longrightarrow> ready v"
    "set X \<subseteq> range is_leader_cmd" by (rule check_leaders_Inr)
  with reset_inv_append [OF assms unsniffed_leaders, of X v'] Inr show ?thesis by simp
qed

lemma evaluate_reset_inv:
  assumes "reset_inv v"
  shows "case evaluate w v of Inl (e, tr) \<Rightarrow> reset_ok (Raised e tr) | Inr (v', c) \<Rightarrow> reset_inv v'"
proof (cases "get_status w (trace v)")
  case (Inl y)
  obtain e tr where y: "y = (e, tr)" by (cases y)
  with Inl get_status_Inl [of w "trace v" e tr] have "tr = trace v @ [status_cmd]" by simp
  with reset_inv_Raised [OF assms unsniffed_status, of e] Inl y show ?thesis
    by (simp add: evaluate_def)
next
  case (Inr y)
  obtain st tr where y: "y = (st, tr)" by (cases y)
  with Inr get_status_Inr [of w "trace v" st tr] have tr: "tr = trace v @ [status_cmd]" by simp
  let ?c = "collect_units st"
  show ?thesis
  proof (cases "check_agent_status w (sort_key fst (agent_status ?c)) (check_services st True)")
    case (Inl e)
    with reset_inv_Raised [OF assms unsniffed_status, of e] Inr y tr show ?thesis
      by (simp add: evaluate_def)
  next
    case r: (Inr r)
    let ?v0 = "v\<lparr>trace := trace v @ [status_cmd], ready := r, logs := []\<rparr>"
    have i0: "reset_inv ?v0"
      by (rule reset_inv_append [OF assms unsniffed_status]) simp_all
    show ?thesis
    proof (cases "legacy_loop w (sort_key fst (ready_units ?c)) ?v0")
      case (Inl z)
      with legacy_loop_reset_inv [OF i0, of w "sort_key fst (ready_units ?c)"] Inr y tr r
      show ?thesis by (simp add: evaluate_def)
    next
      case l: (Inr v1)
      with legacy_loop_reset_inv [OF i0, of w "sort_key fst (ready_units ?c)"] have i1: "reset_inv v1"
        by simp
      from check_leaders_reset_inv [OF i1, of w ?c] Inr y tr r l show ?thesis
        by (auto simp: evaluate_def split: sum.splits)
    qed
  qed
qed

lemma cycle_reset_ok:
  assumes "reset_inv v"
  shows "reset_ok (cycle w v)"
proof (cases "evaluate w v")
  case (Inl y)
  obtain e tr where "y = (e, tr)" by (cases y)
  with Inl evaluate_reset_inv [OF assms, of w] show ?thesis by (simp add: cycle_def)
next
  case (Inr y)
  obtain v' c where "y = (v', c)" by (cases y)
  with Inr evaluate_reset_inv [OF assms, of w] show ?thesis
    by (simp add: cycle_def reset_inv_def split: option.splits)
qed

lemma wait_loop_reset_ok: "reset_inv v \<Longrightarrow> reset_ok (wait_loop ws v)"
proof (induction ws arbitrary: v)
  case Nil
  then show ?case by simp
next
  case (Cons w ws)
  from cycle_reset_ok [OF Cons.prems, of w] Cons.IH show ?case
    by (cases "cycle w v") simp_all
qed

lemma wait_reset_ok: "reset_ok (wait ws)"
  unfolding wait_def by (rule wait_loop_reset_ok) (simp add: reset_inv_def init_def unsniffed_Nil)

lemma reset_ok_shapes:
  assumes "reset_ok r"
  obtains (none) "unsniffed (trace_of r)"
  | (once) A B u where "trace_of r = A @ reset_cmd # log_tail_cmd u # B" "unsniffed A"
      "reset_cmd \<notin> set B"
  | (failed) A n where "r = Raised (JujuWaitException n) (A @ [reset_cmd])" "unsniffed A"
proof (cases r)
  case (Polling v)
  with assms have "unsniffed (trace v) \<or> reset_once (trace v)"
    by (simp add: reset_inv_def split: if_splits)
  with Polling none once show ?thesis unfolding reset_once_def by auto
next
  case (Returned v units)
  with assms have "unsniffed (trace v) \<or> reset_once (trace v)"
    by (simp add: reset_inv_def split: if_splits)
  with Returned none once show ?thesis unfolding reset_once_def by auto
next
  case (Raised e tr)
  with assms consider "unsniffed tr" | "reset_once tr"
    | "\<exists>A n. tr = A @ [reset_cmd] \<and> unsniffed A \<and> e = JujuWaitException n" by auto
  then show ?thesis
  proof cases
    case 1
    with Raised none show ?thesis by simp
  next
    case 2
    with Raised once show ?thesis unfolding reset_once_def by auto
  next
    case 3
    with Raised failed show ?thesis by auto
  qed
qed

text \<open>
  C7. In the trace of every run of \<^verbatim>\<open>wait\<close>, however it ends, the logging reset occurs
  at most once. Where it occurs, no log tail has been fetched before it, and it is
  followed at once by the fetch of a log tail (it is the first step of the first
  sniffing of the run), unless it is the last command of the run and the run has ended
  with the fatal exception of the reset itself. A trace with the fetch of a log tail
  has the reset; so a run that sniffs no unit does not reset the logging.
\<close>

theorem logging_reset_at_most_once:
  "count_list (trace_of (wait ws)) reset_cmd \<le> 1
   \<and> (\<forall>A B. trace_of (wait ws) = A @ reset_cmd # B
         \<longrightarrow> (\<forall>u. log_tail_cmd u \<notin> set A)
             \<and> ((\<exists>u C. B = log_tail_cmd u # C)
                 \<or> B = [] \<and> (\<exists>n. wait ws = Raised (JujuWaitException n) (A @ [reset_cmd]))))
   \<and> ((\<exists>u. log_tail_cmd u \<in> set (trace_of (wait ws))) \<longrightarrow> reset_cmd \<in> set (trace_of (wait ws)))"
  (is "?count \<and> ?place \<and> ?first")
proof -
  from wait_reset_ok [of ws] show ?thesis
  proof (cases rule: reset_ok_shapes)
    case none
    then have n: "reset_cmd \<notin> set (trace_of (wait ws))" "\<And>u. log_tail_cmd u \<notin> set (trace_of (wait ws))"
      by (simp_all add: unsniffed_def)
    from n(1) have "?count" by (simp add: count_list_0_iff)
    moreover from n(1) have "?place" by auto
    moreover from n(2) have "?first" by simp
    ultimately show ?thesis by blast
  next
    case (once A0 B0 u0)
    from once(2) have a: "reset_cmd \<notin> set A0" "\<And>u. log_tail_cmd u \<notin> set A0"
      by (simp_all add: unsniffed_def)
    from once(3) have b: "reset_cmd \<notin> set (log_tail_cmd u0 # B0)" by (simp add: cmds_distinct)
    have "count_list (trace_of (wait ws)) reset_cmd = 1"
      using a(1) once(1,3) by (simp add: count_list_0_iff cmds_distinct)
    then have "?count" by simp
    moreover have "?place"
    proof (intro allI impI)
      fix A B
      assume "trace_of (wait ws) = A @ reset_cmd # B"
      with once(1) have "A0 @ reset_cmd # (log_tail_cmd u0 # B0) = A @ reset_cmd # B" by simp
      with append_Cons_eq_iff [OF a(1) b] have "A0 = A" "log_tail_cmd u0 # B0 = B" by blast+
      with a(2) show "(\<forall>u. log_tail_cmd u \<notin> set A)
             \<and> ((\<exists>u C. B = log_tail_cmd u # C)
                 \<or> B = [] \<and> (\<exists>n. wait ws = Raised (JujuWaitException n) (A @ [reset_cmd])))"
        by auto
    qed
    moreover from once(1) have "?first" by simp
    ultimately show ?thesis by blast
  next
    case (failed A0 n)
    from failed(2) have a: "reset_cmd \<notin> set A0" "\<And>u. log_tail_cmd u \<notin> set A0"
      by (simp_all add: unsniffed_def)
    from failed(1) have t: "trace_of (wait ws) = A0 @ reset_cmd # []" by simp
    have "count_list (trace_of (wait ws)) reset_cmd = 1"
      using a(1) t by (simp add: count_list_0_iff)
    then have "?count" by simp
    moreover have "?place"
    proof (intro allI impI)
      fix A B
      assume "trace_of (wait ws) = A @ reset_cmd # B"
      with t have "A0 @ reset_cmd # [] = A @ reset_cmd # B" by simp
      with append_Cons_eq_iff [OF a(1), of "[]"] have "A0 = A" "[] = B" by auto
      with a(2) failed(1) show "(\<forall>u. log_tail_cmd u \<notin> set A)
             \<and> ((\<exists>u C. B = log_tail_cmd u # C)
                 \<or> B = [] \<and> (\<exists>n. wait ws = Raised (JujuWaitException n) (A @ [reset_cmd])))"
        by auto
    qed
    moreover from t have "?first" by simp
    ultimately show ?thesis by blast
  qed
qed

theorem logging_reset_at_most_once_witness:
  "trace_of (wait sniffing_run)
     = [status_cmd, reset_cmd, log_tail_cmd ''a/1'', status_cmd, log_tail_cmd ''a/1'',
        is_leader_cmd ''a/1'']
   \<and> log_tail_cmd ''a/1'' \<in> set (trace_of (wait sniffing_run))
   \<and> reset_cmd \<in> set (trace_of (wait sniffing_run))
   \<and> count_list (trace_of (wait sniffing_run)) reset_cmd = 1"
proof -
  have t: "trace_of (wait sniffing_run)
     = [status_cmd, reset_cmd, log_tail_cmd ''a/1'', status_cmd, log_tail_cmd ''a/1'',
        is_leader_cmd ''a/1'']"
    by (simp add: sniffing_run_def status_started_def sample_defs helper_defs version_defs loop_defs)
  then have m: "log_tail_cmd ''a/1'' \<in> set (trace_of (wait sniffing_run))" by simp
  with logging_reset_at_most_once [of sniffing_run]
  have r: "reset_cmd \<in> set (trace_of (wait sniffing_run))"
    and c: "count_list (trace_of (wait sniffing_run)) reset_cmd \<le> 1" by blast+
  from r have "count_list (trace_of (wait sniffing_run)) reset_cmd \<noteq> 0"
    by (simp add: count_list_0_iff)
  with c have "count_list (trace_of (wait sniffing_run)) reset_cmd = 1" by simp
  with t m r show ?thesis by simp
qed


subsection \<open>Leaders\<close>

lemma not_new_and_older: "new_enough ver \<Longrightarrow> \<not> older ver"
  by (auto simp: new_enough_def older_def split: option.splits)

lemma get_is_leader_answers:
  "get_is_leader w u None tr = Inr (j, tr') \<Longrightarrow> (j = JBool True) = answers_true w u"
  by (auto simp: answers_true_def get_is_leader_run run_or_die_def
      split: sum.splits prod.splits option.splits proc.splits if_splits)

lemma leads_cases:
  obtains (raise) e tr' where "leads w u ver tr = Inl (e, tr')"
      "tr' = tr \<or> older ver \<and> tr' = tr @ [is_leader_cmd u]"
  | (new) "new_enough ver" "leads w u ver tr = Inr (True, tr)"
  | (asked) "older ver" "leads w u ver tr = Inr (answers_true w u, tr @ [is_leader_cmd u])"
  | (absent) "\<not> new_enough ver" "\<not> older ver" "leads w u ver tr = Inr (False, tr)"
proof (cases ver)
  case None
  then have "\<not> new_enough ver" "\<not> older ver" "leads w u ver tr = Inr (False, tr)"
    by (simp_all add: new_enough_def older_def leads_def)
  then show ?thesis by (rule absent)
next
  case (Some v)
  show ?thesis
  proof (cases "v = []")
    case True
    with Some have "\<not> new_enough ver" "\<not> older ver" "leads w u ver tr = Inr (False, tr)"
      by (simp_all add: new_enough_def older_def leads_def)
    then show ?thesis by (rule absent)
  next
    case False
    show ?thesis
    proof (cases "version_ge (LooseVersion v) (LooseVersion ''1.23'')")
      case (Inl e)
      with Some False have "leads w u ver tr = Inl (e, tr)" by (simp add: leads_def)
      then show ?thesis by (rule raise) simp
    next
      case (Inr b)
      show ?thesis
      proof (cases b)
        case True
        with Some False Inr have "new_enough ver" "leads w u ver tr = Inr (True, tr)"
          by (simp_all add: new_enough_def leads_def)
        then show ?thesis by (rule new)
      next
        case b: False
        with Some False Inr have o: "older ver" by (simp add: older_def)
        show ?thesis
        proof (cases "get_is_leader w u None tr")
          case (Inl y)
          obtain e tr' where y: "y = (e, tr')" by (cases y)
          with Inl get_is_leader_Inl [of w u tr e tr'] have "tr' = tr @ [is_leader_cmd u]" by simp
          moreover from Some False Inr b Inl y have "leads w u ver tr = Inl (e, tr')"
            by (simp add: leads_def)
          ultimately show ?thesis using o by (intro raise [of e tr']) simp_all
        next
          case r: (Inr y)
          obtain j tr' where y: "y = (j, tr')" by (cases y)
          with r get_is_leader_Inr [of w u tr j tr'] get_is_leader_answers [of w u tr j tr']
          have "tr' = tr @ [is_leader_cmd u]" "(j = JBool True) = answers_true w u" by simp_all
          with Some False Inr b r y
          have "leads w u ver tr = Inr (answers_true w u, tr @ [is_leader_cmd u])"
            by (simp add: leads_def)
          with o show ?thesis by (rule asked)
        qed
      qed
    qed
  qed
qed

lemma asked_older_Nil: "asked_older xs []"
  by (simp add: asked_older_def)

lemma asked_older_skip: "asked_older xs X \<Longrightarrow> asked_older (x # xs) X"
  by (auto simp: asked_older_def)

lemma asked_older_ask:
  "older ver \<Longrightarrow> asked_older xs X \<Longrightarrow> asked_older ((u, ver) # xs) (is_leader_cmd u # X)"
  by (auto simp: asked_older_def is_leader_cmd_inj)

lemma asked_older_only: "older ver \<Longrightarrow> asked_older ((u, ver) # xs) [is_leader_cmd u]"
  by (auto simp: asked_older_def is_leader_cmd_inj)

lemma marks_Nil: "marks w [] X L L"
  by (simp add: marks_def)

lemma marks_skip:
  assumes "marks w xs X L L'" and "service_of u \<in> L"
  shows "marks w ((u, ver) # xs) X L L'"
  using assms unfolding marks_def by fastforce

lemma marks_new:
  assumes "marks w xs X (insert (service_of u) L) L'" and "new_enough ver"
  shows "marks w ((u, ver) # xs) X L L'"
  using assms unfolding marks_def by fastforce

lemma marks_true:
  assumes "marks w xs X (insert (service_of u) L) L'" and "answers_true w u"
  shows "marks w ((u, ver) # xs) (is_leader_cmd u # X) L L'"
  using assms unfolding marks_def by fastforce

lemma marks_false:
  assumes "marks w xs X L L'" and "\<not> new_enough ver"
  shows "marks w ((u, ver) # xs) (Y @ X) L L'"
  using assms unfolding marks_def by fastforce

lemma leader_loop_spec:
  "case leader_loop w xs S L tr of
     Inl (e, tr') \<Rightarrow> (\<exists>X. tr' = tr @ X \<and> asked_older xs X)
   | Inr (S', L', tr') \<Rightarrow>
       (\<exists>X. tr' = tr @ X \<and> asked_older xs X \<and> marks w xs X L L'
          \<and> S' = S \<union> service_of ` fst ` set xs)"
proof (induction xs arbitrary: S L tr)
  case Nil
  have "[] = ([] :: cmd list) \<and> asked_older [] [] \<and> marks w [] [] L L" 
    by (simp add: asked_older_Nil marks_Nil)
  then show ?case by auto
next
  case (Cons x xs)
  obtain u ver where x: "x = (u, ver)" by (cases x)
  let ?S = "insert (service_of u) S"
  have S: "?S \<union> service_of ` fst ` set xs = S \<union> service_of ` fst ` set (x # xs)"
    by (auto simp: x)
  have step: ?case
    if rec: "leader_loop w (x # xs) S L tr = leader_loop w xs ?S L1 (tr @ Y)"
      and ask: "\<And>X. asked_older xs X \<Longrightarrow> asked_older (x # xs) (Y @ X)"
      and mark: "\<And>X L'. marks w xs X L1 L' \<Longrightarrow> marks w (x # xs) (Y @ X) L L'"
    for L1 Y
  proof (cases "leader_loop w xs ?S L1 (tr @ Y)")
    case (Inl y)
    obtain e tr' where y: "y = (e, tr')" by (cases y)
    with Inl Cons.IH [where S = ?S and L = L1 and tr = "tr @ Y"] obtain X where "tr' = (tr @ Y) @ X" "asked_older xs X"
      by auto
    with ask have "tr' = tr @ (Y @ X) \<and> asked_older (x # xs) (Y @ X)" by simp
    then have "\<exists>X. tr' = tr @ X \<and> asked_older (x # xs) X" by blast
    with rec Inl y show ?thesis by simp
  next
    case (Inr y)
    obtain S' L' tr' where y: "y = (S', L', tr')" by (cases y)
    with Inr Cons.IH [where S = ?S and L = L1 and tr = "tr @ Y"] obtain X where X: "tr' = (tr @ Y) @ X" "asked_older xs X"
      "marks w xs X L1 L'" "S' = ?S \<union> service_of ` fst ` set xs"
      by auto
    with ask mark S have "tr' = tr @ (Y @ X) \<and> asked_older (x # xs) (Y @ X)
        \<and> marks w (x # xs) (Y @ X) L L' \<and> S' = S \<union> service_of ` fst ` set (x # xs)" by simp
    then have "\<exists>X. tr' = tr @ X \<and> asked_older (x # xs) X \<and> marks w (x # xs) X L L'
        \<and> S' = S \<union> service_of ` fst ` set (x # xs)" by blast
    with rec Inr y show ?thesis by simp
  qed
  show ?case
  proof (cases "service_of u \<in> L")
    case True
    show ?thesis
    proof (rule step [of L "[]"])
      show "leader_loop w (x # xs) S L tr = leader_loop w xs ?S L (tr @ [])"
        using True by (simp add: x Let_def)
      show "asked_older (x # xs) ([] @ X)" if "asked_older xs X" for X
        using that by (simp add: asked_older_skip)
      show "marks w (x # xs) ([] @ X) L L'" if "marks w xs X L L'" for X L'
        using that True by (simp add: x marks_skip)
    qed
  next
    case False
    show ?thesis
    proof (cases rule: leads_cases [of w u ver tr])
      case (raise e tr')
      from raise(2) have "\<exists>X. tr' = tr @ X \<and> asked_older (x # xs) X"
      proof
        assume "tr' = tr"
        then have "tr' = tr @ [] \<and> asked_older (x # xs) []" by (simp add: asked_older_Nil)
        then show ?thesis by blast
      next
        assume "older ver \<and> tr' = tr @ [is_leader_cmd u]"
        then have "tr' = tr @ [is_leader_cmd u] \<and> asked_older (x # xs) [is_leader_cmd u]"
          by (simp add: x asked_older_only)
        then show ?thesis by blast
      qed
      with raise(1) False show ?thesis by (simp add: x Let_def)
    next
      case new
      show ?thesis
      proof (rule step [of "insert (service_of u) L" "[]"])
        show "leader_loop w (x # xs) S L tr = leader_loop w xs ?S (insert (service_of u) L) (tr @ [])"
          using False new(2) by (simp add: x Let_def)
        show "asked_older (x # xs) ([] @ X)" if "asked_older xs X" for X
          using that by (simp add: asked_older_skip)
        show "marks w (x # xs) ([] @ X) L L'" if "marks w xs X (insert (service_of u) L) L'" for X L'
          using that new(1) by (simp add: x marks_new)
      qed
    next
      case asked
      from not_new_and_older [of ver] asked(1) have nn: "\<not> new_enough ver" by blast
      show ?thesis
      proof (cases "answers_true w u")
        case True
        show ?thesis
        proof (rule step [of "insert (service_of u) L" "[is_leader_cmd u]"])
          show "leader_loop w (x # xs) S L tr
              = leader_loop w xs ?S (insert (service_of u) L) (tr @ [is_leader_cmd u])"
            using False asked(2) True by (simp add: x Let_def)
          show "asked_older (x # xs) ([is_leader_cmd u] @ X)" if "asked_older xs X" for X
            using that asked(1) by (simp add: x asked_older_ask)
          show "marks w (x # xs) ([is_leader_cmd u] @ X) L L'"
            if "marks w xs X (insert (service_of u) L) L'" for X L'
            using that True by (simp add: x marks_true)
        qed
      next
        case no: False
        show ?thesis
        proof (rule step [of L "[is_leader_cmd u]"])
          show "leader_loop w (x # xs) S L tr = leader_loop w xs ?S L (tr @ [is_leader_cmd u])"
            using False asked(2) no by (simp add: x Let_def)
          show "asked_older (x # xs) ([is_leader_cmd u] @ X)" if "asked_older xs X" for X
            using that asked(1) by (simp add: x asked_older_ask)
          show "marks w (x # xs) ([is_leader_cmd u] @ X) L L'" if "marks w xs X L L'" for X L'
            using marks_false [OF that nn, of u "[is_leader_cmd u]"] by (simp add: x)
        qed
      qed
    next
      case absent
      show ?thesis
      proof (rule step [of L "[]"])
        show "leader_loop w (x # xs) S L tr = leader_loop w xs ?S L (tr @ [])"
          using False absent(3) by (simp add: x Let_def)
        show "asked_older (x # xs) ([] @ X)" if "asked_older xs X" for X
          using that by (simp add: asked_older_skip)
        show "marks w (x # xs) ([] @ X) L L'" if "marks w xs X L L'" for X L'
          using marks_false [OF that absent(1), of u "[]"] by (simp add: x)
      qed
    qed
  qed
qed

lemma fold_keeps:
  assumes "\<And>x c. P c \<Longrightarrow> P (f x c)" and "P c"
  shows "P (fold f xs c)"
  using assms(2) by (induction xs arbitrary: c) (simp_all add: assms(1))

lemma file_unit_distinct:
  "distinct (map fst (agent_version c)) \<Longrightarrow> distinct (map fst (agent_version (file_unit u i c)))"
  by (simp add: file_unit_def Let_def distinct_update split: option.splits)

lemma collect_unit_distinct:
  assumes "distinct (map fst (agent_version c))"
  shows "distinct (map fst (agent_version (collect_unit x c)))"
proof -
  obtain uname unit where x: "x = (uname, unit)" by (cases x)
  have "distinct (map fst (agent_version (file_unit uname (u_info unit) (c\<lparr>all_units := insert uname (all_units c)\<rparr>))))"
    using assms by (intro file_unit_distinct) simp
  then have "distinct (map fst (agent_version
      (fold (\<lambda>(subname, sub). file_unit subname sub) (unit_subordinates unit)
         (file_unit uname (u_info unit) (c\<lparr>all_units := insert uname (all_units c)\<rparr>)))))"
    by (rule fold_keeps [rotated]) (auto simp: file_unit_distinct)
  then show ?thesis by (simp add: x collect_unit_def)
qed

lemma agent_version_distinct: "distinct (map fst (agent_version (collect_units st)))"
  unfolding collect_units_def
proof (rule fold_keeps)
  fix x :: "string \<times> service" and c :: collected
  assume c: "distinct (map fst (agent_version c))"
  obtain sname service where x: "x = (sname, service)" by (cases x)
  have "distinct (map fst (agent_version (fold collect_unit (service_units service) c)))"
    using c by (rule fold_keeps [rotated]) (rule collect_unit_distinct)
  then show "distinct (map fst (agent_version ((case x of (sname, service) \<Rightarrow> fold collect_unit (service_units service)) c)))"
    by (simp add: x)
qed simp

lemma leader_cmds_asked: "asked_older av (leader_cmds w av tr)"
proof (cases "leader_loop w av {} {} tr")
  case (Inl y)
  obtain e tr' where y: "y = (e, tr')" by (cases y)
  with Inl leader_loop_spec [where w = w and xs = av and S = "{}" and L = "{}" and tr = tr] obtain X where "tr' = tr @ X" "asked_older av X"
    by auto
  with Inl y show ?thesis by (simp add: leader_cmds_def)
next
  case (Inr y)
  obtain S' L' tr' where y: "y = (S', L', tr')" by (cases y)
  with Inr leader_loop_spec [where w = w and xs = av and S = "{}" and L = "{}" and tr = tr] obtain X where "tr' = tr @ X" "asked_older av X"
    by auto
  with Inr y show ?thesis by (simp add: leader_cmds_def)
qed

lemma leaders_marks:
  assumes "leaders w av tr = Some L"
  shows "marks w av (leader_cmds w av tr) {} L"
proof -
  from assms obtain S' tr' where l: "leader_loop w av {} {} tr = Inr (S', L, tr')"
    by (auto simp: leaders_def split: sum.splits prod.splits)
  with leader_loop_spec [where w = w and xs = av and S = "{}" and L = "{}" and tr = tr] obtain X where "tr' = tr @ X" "marks w av X {} L"
    by auto
  with l show ?thesis by (simp add: leader_cmds_def)
qed

lemma check_leaders_services:
  assumes "ready v" and "check_leaders w c v = Inr v'"
  shows "\<exists>L. leaders w (agent_version c) (trace v) = Some L
           \<and> ready v' = (service_of ` fst ` set (agent_version c) \<subseteq> L)"
proof -
  from assms obtain S' L' tr' where
    l: "leader_loop w (agent_version c) {} {} (trace v) = Inr (S', L', tr')"
    and v': "v' = v\<lparr>ready := (if S' \<subseteq> L' then ready v else False), trace := tr'\<rparr>"
    by (auto simp: check_leaders_def split: sum.splits prod.splits)
  from l leader_loop_spec [where w = w and xs = "agent_version c" and S = "{}" and L = "{}" and tr = "trace v"]
  have "S' = service_of ` fst ` set (agent_version c)" by auto
  with l v' assms(1) show ?thesis by (simp add: leaders_def)
qed

text \<open>
  C4. Over the units and versions of a cycle: a unit whose version is present and at
  least 1.23 is never asked \<^verbatim>\<open>is-leader\<close>, and its service is marked as led whenever
  the loop ends without raising; every \<^verbatim>\<open>is-leader\<close> goes to a unit whose version is
  present and below 1.23; a marked service of which no unit is new enough has a unit
  that was asked and answered \<^verbatim>\<open>true\<close>. The verdict stays ready exactly when every
  service of the cycle is marked.
\<close>

theorem leader_by_version_or_query:
  assumes "av = agent_version (collect_units st)"
  shows "(map_of av u = Some ver \<and> new_enough ver
           \<longrightarrow> is_leader_cmd u \<notin> set (leader_cmds w av tr)
               \<and> (\<forall>L. leaders w av tr = Some L \<longrightarrow> service_of u \<in> L))
    \<and> (is_leader_cmd u \<in> set (leader_cmds w av tr) \<longrightarrow> (\<exists>ver. map_of av u = Some ver \<and> older ver))
    \<and> (leaders w av tr = Some L \<and> s \<in> L
         \<and> (\<forall>u ver. map_of av u = Some ver \<and> service_of u = s \<longrightarrow> \<not> new_enough ver)
        \<longrightarrow> (\<exists>u. service_of u = s \<and> is_leader_cmd u \<in> set (leader_cmds w av tr) \<and> answers_true w u))
    \<and> (ready v \<and> check_leaders w (collect_units st) v = Inr v'
        \<longrightarrow> (\<exists>L. leaders w av (trace v) = Some L \<and> ready v' = (service_of ` fst ` set av \<subseteq> L)))"
proof -
  from assms have d: "distinct (map fst av)" by (simp add: agent_version_distinct)
  then have m: "map_of av a = Some b \<longleftrightarrow> (a, b) \<in> set av" for a b by simp
  have asked: "\<exists>ver. map_of av a = Some ver \<and> older ver" if "is_leader_cmd a \<in> set (leader_cmds w av tr)" for a
    using leader_cmds_asked [of av w tr] that unfolding asked_older_def m by blast
  have 1: "is_leader_cmd u \<notin> set (leader_cmds w av tr) \<and> (\<forall>L. leaders w av tr = Some L \<longrightarrow> service_of u \<in> L)"
    if a: "map_of av u = Some ver \<and> new_enough ver"
  proof
    show "is_leader_cmd u \<notin> set (leader_cmds w av tr)"
    proof
      assume "is_leader_cmd u \<in> set (leader_cmds w av tr)"
      from asked [OF this] a have "older ver" by auto
      with a not_new_and_older [of ver] show False by blast
    qed
    show "\<forall>L. leaders w av tr = Some L \<longrightarrow> service_of u \<in> L"
    proof (intro allI impI)
      fix L
      assume "leaders w av tr = Some L"
      from leaders_marks [OF this] a show "service_of u \<in> L" unfolding marks_def m by blast
    qed
  qed
  have 3: "\<exists>u. service_of u = s \<and> is_leader_cmd u \<in> set (leader_cmds w av tr) \<and> answers_true w u"
    if a: "leaders w av tr = Some L \<and> s \<in> L
         \<and> (\<forall>u ver. map_of av u = Some ver \<and> service_of u = s \<longrightarrow> \<not> new_enough ver)"
  proof -
    from a leaders_marks [of w av tr L] have
      "\<exists>(u, ver) \<in> set av. service_of u = s
          \<and> (new_enough ver \<or> is_leader_cmd u \<in> set (leader_cmds w av tr) \<and> answers_true w u)"
      unfolding marks_def by blast
    then obtain u' ver' where "(u', ver') \<in> set av" "service_of u' = s"
      "new_enough ver' \<or> is_leader_cmd u' \<in> set (leader_cmds w av tr) \<and> answers_true w u'" by blast
    with a m show ?thesis by blast
  qed
  have 4: "\<exists>L. leaders w av (trace v) = Some L \<and> ready v' = (service_of ` fst ` set av \<subseteq> L)"
    if "ready v \<and> check_leaders w (collect_units st) v = Inr v'"
    using that check_leaders_services [of v w "collect_units st" v'] assms by simp
  from 1 asked 3 4 show ?thesis by blast
qed

theorem leader_by_version_or_query_witness:
  "agent_version (collect_units status_mixed)
     = [(''old/0'', Some ''1.22.0''), (''old/1'', Some ''1.22.0''), (''new/0'', Some ''1.23.0'')]
   \<and> new_enough (Some ''1.23.0'') \<and> older (Some ''1.22.0'')
   \<and> leader_cmds (world_of status_mixed second_leads 0) (agent_version (collect_units status_mixed)) []
       = [is_leader_cmd ''old/0'', is_leader_cmd ''old/1'']
   \<and> leaders (world_of status_mixed second_leads 0) (agent_version (collect_units status_mixed)) []
       = Some {''new'', ''old''}
   \<and> answers_true (world_of status_mixed second_leads 0) ''old/1''
   \<and> is_leader_cmd ''new/0''
       \<notin> set (leader_cmds (world_of status_mixed second_leads 0) (agent_version (collect_units status_mixed)) [])
   \<and> (\<exists>u. service_of u = ''old''
         \<and> is_leader_cmd u
             \<in> set (leader_cmds (world_of status_mixed second_leads 0) (agent_version (collect_units status_mixed)) [])
         \<and> answers_true (world_of status_mixed second_leads 0) u)"
proof -
  let ?w = "world_of status_mixed second_leads 0"
  let ?av = "agent_version (collect_units status_mixed)"
  have av: "?av = [(''old/0'', Some ''1.22.0''), (''old/1'', Some ''1.22.0''), (''new/0'', Some ''1.23.0'')]"
    by (simp add: status_mixed_def sample_defs loop_defs)
  have n: "new_enough (Some ''1.23.0'')" and o: "older (Some ''1.22.0'')"
    by (simp_all add: new_enough_def older_def version_defs)
  have c: "leader_cmds ?w ?av [] = [is_leader_cmd ''old/0'', is_leader_cmd ''old/1'']"
    unfolding av
    by (simp add: leader_cmds_def second_leads_def sample_defs helper_defs version_defs loop_defs)
  have l: "leaders ?w ?av [] = Some {''new'', ''old''}"
    unfolding av
    by (simp add: leaders_def second_leads_def sample_defs helper_defs version_defs loop_defs)
  have a: "answers_true ?w ''old/1''"
    by (simp add: answers_true_def second_leads_def sample_defs helper_defs)
  have m: "map_of ?av ''new/0'' = Some (Some ''1.23.0'')" by (simp add: av)
  have old: "\<forall>u ver. map_of ?av u = Some ver \<and> service_of u = ''old'' \<longrightarrow> \<not> new_enough ver"
    by (auto simp: av new_enough_def version_defs service_of_def split: if_splits)
  from leader_by_version_or_query [OF refl, where st = status_mixed and w = ?w and tr = "[]"
      and u = "''new/0''" and ver = "Some ''1.23.0''" and L = "{''new'', ''old''}" and s = "''old''"]
    m n l old
  have "is_leader_cmd ''new/0'' \<notin> set (leader_cmds ?w ?av [])"
    and "\<exists>u. service_of u = ''old'' \<and> is_leader_cmd u \<in> set (leader_cmds ?w ?av []) \<and> answers_true ?w u"
    by auto
  with av n o c l a show ?thesis by simp
qed

end
